theory Spec2Isabelle
  imports Complex_Main "HOL-Library.Log_Nat"
begin

section \<open>Python values\<close>

text \<open>
  A Python \<^verbatim>\<open>str\<close> is a sequence of Unicode code points; the source names code points
  beyond one byte (U+2013, U+2014), so a string is a list of natural numbers.
  \<open>asc\<close> reads an ASCII literal.
\<close>

type_synonym pystr = "nat list"

definition asc :: "string \<Rightarrow> pystr" where
  "asc cs = map of_char cs"

datatype pyerror = ValueError | OverflowError

text \<open>
  A Python \<^verbatim>\<open>float\<close> is an IEEE 754 binary64 value. A finite one is carried by the
  rational number it denotes (the sign of zero is not kept: no operation of the source
  tells \<^verbatim>\<open>-0.0\<close> from \<^verbatim>\<open>0.0\<close>).
\<close>

datatype pyfloat = Finite rat | PosInf | NegInf | NaN

text \<open>The argument type \<^verbatim>\<open>Union[str, int, float, None]\<close> of both normalizers.\<close>

datatype pyval = PNone | PInt int | PFloat pyfloat | PStr pystr

section \<open>Characters\<close>

text \<open>
  The classes of the code points below 128 are written out. The classes of the others come
  from the interpreter's Unicode database, which is no part of the repository: they are
  the fields of a parameter. \<open>uc_lower\<close> is \<^verbatim>\<open>str.lower\<close> on a string that has a
  code point beyond ASCII (lowering is not character-wise there).
\<close>

record ucd =
  uc_space :: "nat \<Rightarrow> bool"
  uc_decimal :: "nat \<Rightarrow> nat option"
  uc_digit :: "nat \<Rightarrow> bool"
  uc_alnum :: "nat \<Rightarrow> bool"
  uc_lower :: "pystr \<Rightarrow> pystr"

definition is_space :: "ucd \<Rightarrow> nat \<Rightarrow> bool" where
  "is_space U c = (if c < 128 then (9 \<le> c \<and> c \<le> 13) \<or> (28 \<le> c \<and> c \<le> 32) else uc_space U c)"

definition decimal_value :: "ucd \<Rightarrow> nat \<Rightarrow> nat option" where
  "decimal_value U c =
     (if c < 128 then (if 48 \<le> c \<and> c \<le> 57 then Some (c - 48) else None) else uc_decimal U c)"

definition is_decimal :: "ucd \<Rightarrow> nat \<Rightarrow> bool" where
  "is_decimal U c = (decimal_value U c \<noteq> None)"

text \<open>\<^verbatim>\<open>str.isdigit\<close> also accepts digits that are no decimal digits (superscripts).\<close>

definition is_digit :: "ucd \<Rightarrow> nat \<Rightarrow> bool" where
  "is_digit U c = (is_decimal U c \<or> (128 \<le> c \<and> uc_digit U c))"

definition is_word :: "ucd \<Rightarrow> nat \<Rightarrow> bool" where
  "is_word U c =
     (if c < 128
      then (48 \<le> c \<and> c \<le> 57) \<or> (65 \<le> c \<and> c \<le> 90) \<or> (97 \<le> c \<and> c \<le> 122) \<or> c = 95
      else uc_alnum U c)"

section \<open>String methods\<close>

definition py_strip :: "ucd \<Rightarrow> pystr \<Rightarrow> pystr" where
  "py_strip U s = rev (dropWhile (is_space U) (rev (dropWhile (is_space U) s)))"

definition ascii_lower :: "nat \<Rightarrow> nat" where
  "ascii_lower c = (if 65 \<le> c \<and> c \<le> 90 then c + 32 else c)"

definition py_lower :: "ucd \<Rightarrow> pystr \<Rightarrow> pystr" where
  "py_lower U s = (if list_all (\<lambda>c. c < 128) s then map ascii_lower s else uc_lower U s)"

definition py_isdigit :: "ucd \<Rightarrow> pystr \<Rightarrow> bool" where
  "py_isdigit U s = (s \<noteq> [] \<and> list_all (is_digit U) s)"

text \<open>\<^verbatim>\<open>s.replace(a, b)\<close> for one-character \<open>a\<close> and \<open>b\<close>.\<close>

definition py_replace :: "nat \<Rightarrow> nat \<Rightarrow> pystr \<Rightarrow> pystr" where
  "py_replace a b s = map (\<lambda>c. if c = a then b else c) s"

text \<open>\<^verbatim>\<open>s.split(sep)\<close> for a one-character separator.\<close>

fun py_split :: "nat \<Rightarrow> pystr \<Rightarrow> pystr list" where
  "py_split sep [] = [[]]"
| "py_split sep (c # cs) =
     (if c = sep then [] # py_split sep cs
      else (case py_split sep cs of [] \<Rightarrow> [[c]] | p # ps \<Rightarrow> (c # p) # ps))"

text \<open>\<^verbatim>\<open>sub in s\<close>.\<close>

fun py_contains :: "pystr \<Rightarrow> pystr \<Rightarrow> bool" where
  "py_contains sub [] = (sub = [])"
| "py_contains sub (c # cs) = (take (length sub) (c # cs) = sub \<or> py_contains sub cs)"

text \<open>The value of a run of decimal digits.\<close>

definition digit_of :: "ucd \<Rightarrow> nat \<Rightarrow> nat" where
  "digit_of U c = (case decimal_value U c of Some d \<Rightarrow> d | None \<Rightarrow> 0)"

definition digits_value :: "ucd \<Rightarrow> pystr \<Rightarrow> nat" where
  "digits_value U ds = foldl (\<lambda>a c. 10 * a + digit_of U c) 0 ds"

text \<open>
  \<^verbatim>\<open>int(s)\<close>, on the strings the source gives it: they have no sign, blank or underscore
  (they passed \<^verbatim>\<open>isdigit\<close> or matched \<^verbatim>\<open>\d+\<close>), and \<^verbatim>\<open>int\<close> raises on a character that
  is no decimal digit. It raises \<^verbatim>\<open>ValueError\<close> as well on a text of more than 4300
  digits, leading zeros counted: the limit \<^verbatim>\<open>sys.int_info.default_max_str_digits\<close> of
  the interpreter, which the source does not change.
\<close>

definition max_str_digits :: nat where
  "max_str_digits = 4300"

definition py_int :: "ucd \<Rightarrow> pystr \<Rightarrow> pyerror + int" where
  "py_int U s =
     (if s \<noteq> [] \<and> list_all (is_decimal U) s \<and> length s \<le> max_str_digits
      then Inr (int (digits_value U s)) else Inl ValueError)"

text \<open>
  \<^verbatim>\<open>str(n)\<close> of an integer of at most 4300 digits; \<^verbatim>\<open>str\<close> has the limit of \<^verbatim>\<open>int\<close>, and
  is used below that limit only.
\<close>

fun nat_digits :: "nat \<Rightarrow> pystr" where
  "nat_digits n = (if n < 10 then [48 + n] else nat_digits (n div 10) @ [48 + n mod 10])"

definition py_str_int :: "int \<Rightarrow> pystr" where
  "py_str_int n = (if n < 0 then 45 # nat_digits (nat (- n)) else nat_digits (nat n))"

section \<open>Floating point\<close>

definition round_half_even :: "rat \<Rightarrow> int" where
  "round_half_even q =
     (let f = \<lfloor>q\<rfloor>; d = q - of_int f
      in if d < 1 / 2 then f else if 1 / 2 < d then f + 1 else if even f then f else f + 1)"

definition pow2 :: "int \<Rightarrow> rat" where
  "pow2 k = 2 powi k"

text \<open>The exponent \<open>e\<close> with \<open>2\<^sup>e \<le> a < 2\<^sup>e\<^sup>+\<^sup>1\<close>, for positive \<open>a\<close>.\<close>

definition ilog2 :: "rat \<Rightarrow> int" where
  "ilog2 a =
     (let k = bitlen (fst (quotient_of a)) - bitlen (snd (quotient_of a))
      in if pow2 k \<le> a then k else k - 1)"

text \<open>
  Rounding of a real value to binary64, to nearest and ties to even: 53 significant bits,
  least exponent \<open>-1022\<close> (below it the spacing stays \<open>2\<^sup>-\<^sup>1\<^sup>0\<^sup>7\<^sup>4\<close>), and a result of
  magnitude \<open>2\<^sup>1\<^sup>0\<^sup>2\<^sup>4\<close> or more is an overflow (\<open>None\<close>).
\<close>

definition rd :: "rat \<Rightarrow> rat option" where
  "rd q =
     (if q = 0 then Some 0
      else let a = \<bar>q\<bar>;
               u = pow2 (max (ilog2 a) (- 1022) - 52);
               r = of_int (round_half_even (a / u)) * u
           in if pow2 1024 \<le> r then None else Some (if q < 0 then - r else r))"

text \<open>The result of an arithmetic operation or of \<^verbatim>\<open>float(text)\<close>: overflow gives an infinity.\<close>

definition float_of_rat :: "rat \<Rightarrow> pyfloat" where
  "float_of_rat q = (case rd q of Some r \<Rightarrow> Finite r | None \<Rightarrow> if 0 < q then PosInf else NegInf)"

text \<open>\<^verbatim>\<open>float(n)\<close> of an integer raises on overflow.\<close>

definition py_float_of_int :: "int \<Rightarrow> pyerror + pyfloat" where
  "py_float_of_int n = (case rd (of_int n) of Some r \<Rightarrow> Inr (Finite r) | None \<Rightarrow> Inl OverflowError)"

fun fadd :: "pyfloat \<Rightarrow> pyfloat \<Rightarrow> pyfloat" where
  "fadd (Finite a) (Finite b) = float_of_rat (a + b)"
| "fadd NaN _ = NaN"
| "fadd _ NaN = NaN"
| "fadd PosInf NegInf = NaN"
| "fadd NegInf PosInf = NaN"
| "fadd PosInf _ = PosInf"
| "fadd NegInf _ = NegInf"
| "fadd _ PosInf = PosInf"
| "fadd _ NegInf = NegInf"

text \<open>\<^verbatim>\<open>x * 60.0\<close> and \<^verbatim>\<open>x / 60.0\<close>.\<close>

fun fmul60 :: "pyfloat \<Rightarrow> pyfloat" where
  "fmul60 (Finite a) = float_of_rat (a * 60)"
| "fmul60 x = x"

fun fdiv60 :: "pyfloat \<Rightarrow> pyfloat" where
  "fdiv60 (Finite a) = float_of_rat (a / 60)"
| "fdiv60 x = x"

text \<open>\<^verbatim>\<open>int(round(x))\<close>: \<^verbatim>\<open>round\<close> of a float is an integer, ties to even.\<close>

fun py_round :: "pyfloat \<Rightarrow> pyerror + int" where
  "py_round (Finite q) = Inr (round_half_even q)"
| "py_round NaN = Inl ValueError"
| "py_round _ = Inl OverflowError"

text \<open>
  \<^verbatim>\<open>float(text)\<close>, on the texts the source gives it: a capture of \<^verbatim>\<open>\d+(?:\.\d+)?\<close>.
  The conversion is correctly rounded, and a value too large is an infinity.
\<close>

definition py_float :: "ucd \<Rightarrow> pystr \<Rightarrow> pyfloat" where
  "py_float U s =
     (let ip = takeWhile (\<lambda>c. c \<noteq> 46) s; fp = drop 1 (dropWhile (\<lambda>c. c \<noteq> 46) s)
      in float_of_rat (of_nat (digits_value U ip) + of_nat (digits_value U fp) / 10 ^ length fp))"

section \<open>Regular expressions\<close>

text \<open>
  The patterns of the source, as syntax trees, and the backtracking search of \<^verbatim>\<open>re\<close>:
  a match is tried at a position with the alternatives in the order of the pattern and
  the repetitions greedy, and the first success is the match. All repetitions of the
  source are over one character class, or are \<^verbatim>\<open>?\<close>.
\<close>

datatype cclass = Digit | Space | OneOf "nat list"

datatype regex =
    Lit nat
  | Rep cclass nat "nat option"
  | Seq regex regex
  | Alt regex regex
  | Opt regex
  | Grp nat regex
  | WordB
  | Bol
  | Eol

fun in_class :: "ucd \<Rightarrow> cclass \<Rightarrow> nat \<Rightarrow> bool" where
  "in_class U Digit c = is_decimal U c"
| "in_class U Space c = is_space U c"
| "in_class U (OneOf cs) c = (c \<in> set cs)"

text \<open>
  A position in the subject: the character before it (\<open>None\<close> at the start) and the rest.
  The captures are the texts of the groups that took part in the match.
\<close>

type_synonym rpos = "nat option \<times> pystr"
type_synonym caps = "(nat \<times> pystr) list"

definition adv :: "nat \<Rightarrow> rpos \<Rightarrow> rpos" where
  "adv j p = (if j = 0 then p else (Some (snd p ! (j - 1)), drop j (snd p)))"

definition word_at :: "ucd \<Rightarrow> nat option \<Rightarrow> bool" where
  "word_at U c = (case c of None \<Rightarrow> False | Some x \<Rightarrow> is_word U x)"

definition next_char :: "pystr \<Rightarrow> nat option" where
  "next_char s = (case s of [] \<Rightarrow> None | c # _ \<Rightarrow> Some c)"

text \<open>All the ways a pattern matches at a position, in the order the search tries them.\<close>

fun rx :: "ucd \<Rightarrow> regex \<Rightarrow> rpos \<Rightarrow> caps \<Rightarrow> (rpos \<times> caps) list" where
  "rx U (Lit c) p cp =
     (case snd p of [] \<Rightarrow> [] | x # xs \<Rightarrow> if x = c then [((Some x, xs), cp)] else [])"
| "rx U (Rep cl lo hi) p cp =
     (let run = length (takeWhile (in_class U cl) (snd p));
          k = (case hi of None \<Rightarrow> run | Some h \<Rightarrow> min h run)
      in map (\<lambda>j. (adv j p, cp)) (rev [lo..<Suc k]))"
| "rx U (Seq a b) p cp = concat (map (\<lambda>(p', cp'). rx U b p' cp') (rx U a p cp))"
| "rx U (Alt a b) p cp = rx U a p cp @ rx U b p cp"
| "rx U (Opt a) p cp = rx U a p cp @ [(p, cp)]"
| "rx U (Grp n a) p cp =
     map (\<lambda>(p', cp'). (p', (n, take (length (snd p) - length (snd p')) (snd p)) # cp'))
       (rx U a p cp)"
| "rx U WordB p cp = (if word_at U (fst p) \<noteq> word_at U (next_char (snd p)) then [(p, cp)] else [])"
| "rx U Bol p cp = (if fst p = None then [(p, cp)] else [])"
| "rx U Eol p cp = (if snd p = [] \<or> snd p = [10] then [(p, cp)] else [])"

definition grp :: "caps \<Rightarrow> nat \<Rightarrow> pystr option" where
  "grp cp n = map_of cp n"

text \<open>The first match at a position: the number of characters it takes and its captures.\<close>

definition match_here :: "ucd \<Rightarrow> regex \<Rightarrow> rpos \<Rightarrow> (nat \<times> caps) option" where
  "match_here U r p =
     (case rx U r p [] of [] \<Rightarrow> None
      | (p', cp) # _ \<Rightarrow> Some (length (snd p) - length (snd p'), cp))"

text \<open>\<^verbatim>\<open>re.match\<close>: at the start of the string.\<close>

definition re_match :: "ucd \<Rightarrow> regex \<Rightarrow> pystr \<Rightarrow> caps option" where
  "re_match U r s = map_option snd (match_here U r (None, s))"

text \<open>\<^verbatim>\<open>re.fullmatch\<close>: the first way of matching at the start that ends at the end.\<close>

definition re_fullmatch :: "ucd \<Rightarrow> regex \<Rightarrow> pystr \<Rightarrow> caps option" where
  "re_fullmatch U r s = map_option snd (find (\<lambda>(p', cp). snd p' = []) (rx U r (None, s) []))"

text \<open>\<^verbatim>\<open>re.search\<close>: the first match at the leftmost position that has one.\<close>

fun search_from :: "ucd \<Rightarrow> regex \<Rightarrow> nat option \<Rightarrow> pystr \<Rightarrow> caps option" where
  "search_from U r prev [] = map_option snd (match_here U r (prev, []))"
| "search_from U r prev (c # cs) =
     (case match_here U r (prev, c # cs) of
        Some (k, cp) \<Rightarrow> Some cp
      | None \<Rightarrow> search_from U r (Some c) cs)"

definition re_search :: "ucd \<Rightarrow> regex \<Rightarrow> pystr \<Rightarrow> caps option" where
  "re_search U r s = search_from U r None s"

text \<open>
  \<^verbatim>\<open>finditer\<close> and \<^verbatim>\<open>findall\<close>: the matches from left to right, each search starting
  where the match before ended. \<open>skip\<close> counts the characters still inside that match.
  (Every pattern the source scans with takes a digit, so no match is empty.)
\<close>

fun scan :: "ucd \<Rightarrow> regex \<Rightarrow> nat \<Rightarrow> nat option \<Rightarrow> pystr \<Rightarrow> caps list" where
  "scan U r skip prev [] = []"
| "scan U r skip prev (c # cs) =
     (if 0 < skip then scan U r (skip - 1) (Some c) cs
      else (case match_here U r (prev, c # cs) of
              None \<Rightarrow> scan U r 0 (Some c) cs
            | Some (k, cp) \<Rightarrow> cp # scan U r (k - 1) (Some c) cs))"

definition finditer :: "ucd \<Rightarrow> regex \<Rightarrow> pystr \<Rightarrow> caps list" where
  "finditer U r s = scan U r 0 None s"

text \<open>The text of a group that matched (\<^verbatim>\<open>m.group(n)\<close>), or the empty text.\<close>

definition group_text :: "caps \<Rightarrow> nat \<Rightarrow> pystr" where
  "group_text cp n = (case grp cp n of None \<Rightarrow> [] | Some t \<Rightarrow> t)"

subsection \<open>The patterns\<close>

definition lits :: "string \<Rightarrow> regex \<Rightarrow> regex" where
  "lits cs r = foldr (\<lambda>c. Seq (Lit (of_char c))) cs r"

text \<open>\<^verbatim>\<open>(\d+(?:\.\d+)?)\<close> as group \<open>n\<close>.\<close>

definition num :: "nat \<Rightarrow> regex" where
  "num n = Grp n (Seq (Rep Digit 1 None) (Opt (Seq (Lit 46) (Rep Digit 1 None))))"

text \<open>\<^verbatim>\<open>\d+:\d{1,2}(?::\d{1,2})?\<close>\<close>

definition colon_re :: regex where
  "colon_re =
     Seq (Rep Digit 1 None) (Seq (Lit 58) (Seq (Rep Digit 1 (Some 2))
       (Opt (Seq (Lit 58) (Rep Digit 1 (Some 2))))))"

text \<open>\<^verbatim>\<open>^pt(?:(\d+(?:\.\d+)?)h)?(?:(\d+(?:\.\d+)?)m)?(?:(\d+(?:\.\d+)?)s)?$\<close>\<close>

definition iso_re :: regex where
  "iso_re =
     Seq Bol (lits ''pt''
       (Seq (Opt (Seq (num 1) (Lit 104)))
         (Seq (Opt (Seq (num 2) (Lit 109)))
           (Seq (Opt (Seq (num 3) (Lit 115))) Eol))))"

text \<open>\<^verbatim>\<open>(\d+(?:\.\d+)?)\s*(?:hours?|hrs?|hr|h)\b\<close>\<close>

definition hour_pattern :: regex where
  "hour_pattern =
     Seq (num 1) (Seq (Rep Space 0 None)
       (Seq (Alt (lits ''hour'' (Opt (Lit 115)))
              (Alt (lits ''hr'' (Opt (Lit 115)))
                (Alt (Seq (Lit 104) (Lit 114)) (Lit 104))))
          WordB))"

text \<open>\<^verbatim>\<open>(\d+(?:\.\d+)?)\s*(?:minutes?|mins?|min|m)\b\<close>\<close>

definition minute_pattern :: regex where
  "minute_pattern =
     Seq (num 1) (Seq (Rep Space 0 None)
       (Seq (Alt (lits ''minute'' (Opt (Lit 115)))
              (Alt (lits ''min'' (Opt (Lit 115)))
                (Alt (Seq (Lit 109) (Seq (Lit 105) (Lit 110))) (Lit 109))))
          WordB))"

text \<open>\<^verbatim>\<open>(\d+(?:\.\d+)?)\s*(?:seconds?|secs?|sec|s)\b\<close>\<close>

definition second_pattern :: regex where
  "second_pattern =
     Seq (num 1) (Seq (Rep Space 0 None)
       (Seq (Alt (lits ''second'' (Opt (Lit 115)))
              (Alt (lits ''sec'' (Opt (Lit 115)))
                (Alt (Seq (Lit 115) (Seq (Lit 101) (Lit 99))) (Lit 115))))
          WordB))"

text \<open>\<^verbatim>\<open>(\d+(?:\.\d+)?)h\s*(\d+(?:\.\d+)?)m\<close>\<close>

definition compact_hm_re :: regex where
  "compact_hm_re = Seq (num 1) (Seq (Lit 104) (Seq (Rep Space 0 None) (Seq (num 2) (Lit 109))))"

text \<open>\<^verbatim>\<open>(\d+(?:\.\d+)?)h\b\<close> and \<^verbatim>\<open>(\d+(?:\.\d+)?)m\b\<close>\<close>

definition compact_h_re :: regex where
  "compact_h_re = Seq (num 1) (Seq (Lit 104) WordB)"

definition compact_m_re :: regex where
  "compact_m_re = Seq (num 1) (Seq (Lit 109) WordB)"

text \<open>\<^verbatim>\<open>(\d+)\s*[-..to]\s*(\d+)\<close>, the dashes being U+2013 and U+2014.\<close>

definition range_re :: regex where
  "range_re =
     Seq (Grp 1 (Rep Digit 1 None)) (Seq (Rep Space 0 None)
       (Seq (Rep (OneOf [45, 8211, 8212, 116, 111]) 1 (Some 1))
         (Seq (Rep Space 0 None) (Grp 2 (Rep Digit 1 None)))))"

section \<open>The duration normalizer\<close>

text \<open>The colon branch: \<^verbatim>\<open>hours * 60 + minutes + (seconds / 60.0)\<close>, rounded.\<close>

definition clock_total :: "int \<Rightarrow> int \<Rightarrow> int \<Rightarrow> pyerror + int" where
  "clock_total hours minutes seconds =
     (case py_float_of_int seconds of Inl e \<Rightarrow> Inl e | Inr sf \<Rightarrow>
      (case py_float_of_int (hours * 60 + minutes) of Inl e \<Rightarrow> Inl e | Inr hm \<Rightarrow>
         py_round (fadd hm (fdiv60 sf))))"

fun ints_of :: "ucd \<Rightarrow> pystr list \<Rightarrow> pyerror + int list" where
  "ints_of U [] = Inr []"
| "ints_of U (p # ps) =
     (case py_int U p of Inl e \<Rightarrow> Inl e | Inr n \<Rightarrow>
      (case ints_of U ps of Inl e \<Rightarrow> Inl e | Inr ns \<Rightarrow> Inr (n # ns)))"

definition colon_minutes :: "ucd \<Rightarrow> pystr \<Rightarrow> pyerror + int" where
  "colon_minutes U s =
     (case ints_of U (py_split 58 s) of Inl e \<Rightarrow> Inl e
      | Inr parts \<Rightarrow>
          (case parts of
             [hours, minutes] \<Rightarrow> clock_total hours minutes 0
           | [hours, minutes, seconds] \<Rightarrow> clock_total hours minutes seconds
           | _ \<Rightarrow> Inl ValueError))"

definition group_float :: "ucd \<Rightarrow> caps \<Rightarrow> nat \<Rightarrow> pyfloat" where
  "group_float U cp n = (case grp cp n of None \<Rightarrow> Finite 0 | Some t \<Rightarrow> py_float U t)"

definition iso_total :: "ucd \<Rightarrow> caps \<Rightarrow> pyfloat" where
  "iso_total U cp =
     fadd (fadd (fmul60 (group_float U cp 1)) (group_float U cp 2)) (fdiv60 (group_float U cp 3))"

text \<open>The three loops over the unit words, in the order of the source.\<close>

definition unit_total :: "ucd \<Rightarrow> pystr \<Rightarrow> pyfloat" where
  "unit_total U s =
     (let t0 = Finite 0;
          t1 = foldl (\<lambda>t m. fadd t (fmul60 (py_float U (group_text m 1)))) t0 (finditer U hour_pattern s);
          t2 = foldl (\<lambda>t m. fadd t (py_float U (group_text m 1))) t1 (finditer U minute_pattern s);
          t3 = foldl (\<lambda>t m. fadd t (fdiv60 (py_float U (group_text m 1)))) t2 (finditer U second_pattern s)
      in t3)"

text \<open>The three loops of the compact stage; each adds to the same total.\<close>

definition compact_total :: "ucd \<Rightarrow> pystr \<Rightarrow> pyfloat \<Rightarrow> pyfloat" where
  "compact_total U s t0 =
     (let t1 = foldl (\<lambda>t m. fadd t (fadd (fmul60 (py_float U (group_text m 1)))
                                       (py_float U (group_text m 2))))
                 t0 (finditer U compact_hm_re s);
          t2 = foldl (\<lambda>t m. fadd t (fmul60 (py_float U (group_text m 1)))) t1 (finditer U compact_h_re s);
          t3 = foldl (\<lambda>t m. fadd t (py_float U (group_text m 1))) t2 (finditer U compact_m_re s)
      in t3)"

definition words_total :: "ucd \<Rightarrow> pystr \<Rightarrow> pyfloat" where
  "words_total U s =
     (let total = unit_total U s;
          total = (if total = Finite 0 then compact_total U s total else total);
          total = (if total = Finite 0
                   then (case re_search U (num 1) s of
                           Some cp \<Rightarrow> py_float U (group_text cp 1)
                         | None \<Rightarrow> total)
                   else total)
      in total)"

definition time_str_minutes :: "ucd \<Rightarrow> pystr \<Rightarrow> pyerror + int" where
  "time_str_minutes U t =
     (let s = py_lower U (py_strip U t)
      in if s = [] then Inr 0
         else if py_isdigit U s then py_int U s
         else if re_fullmatch U colon_re s \<noteq> None then colon_minutes U s
         else let s = py_replace 44 32 s;
                  s = py_replace 8211 45 s;
                  s = py_replace 8212 45 s
              in (case re_match U iso_re s of
                    Some cp \<Rightarrow> py_round (iso_total U cp)
                  | None \<Rightarrow> py_round (words_total U s)))"

definition num_minutes :: "pyerror + pyfloat \<Rightarrow> pyerror + int" where
  "num_minutes x = (case x of Inl e \<Rightarrow> Inl e | Inr f \<Rightarrow> py_round f)"

fun parse_time_to_minutes :: "ucd \<Rightarrow> pyval \<Rightarrow> pyerror + int" where
  "parse_time_to_minutes U PNone = Inr 0"
| "parse_time_to_minutes U (PInt n) = num_minutes (py_float_of_int n)"
| "parse_time_to_minutes U (PFloat x) = num_minutes (Inr x)"
| "parse_time_to_minutes U (PStr t) = time_str_minutes U t"

section \<open>The servings normalizer\<close>

definition servings_str :: "ucd \<Rightarrow> pystr \<Rightarrow> pyerror + int" where
  "servings_str U t =
     (let s = py_lower U (py_strip U t)
      in if s = [] then Inr 0
         else if py_isdigit U s then py_int U s
         else (case re_search U range_re s of
                 Some cp \<Rightarrow> py_int U (group_text cp 1)
               | None \<Rightarrow>
                   (case re_search U (num 1) s of
                      Some cp \<Rightarrow> py_round (py_float U (group_text cp 1))
                    | None \<Rightarrow> Inr 0)))"

fun parse_servings_to_int :: "ucd \<Rightarrow> pyval \<Rightarrow> pyerror + int" where
  "parse_servings_to_int U PNone = Inr 0"
| "parse_servings_to_int U (PInt n) = num_minutes (py_float_of_int n)"
| "parse_servings_to_int U (PFloat x) = num_minutes (Inr x)"
| "parse_servings_to_int U (PStr t) = servings_str U t"

section \<open>The source classifier\<close>

datatype platform = Tiktok | Youtube | Website

definition get_platform :: "ucd \<Rightarrow> pystr \<Rightarrow> platform" where
  "get_platform U url =
     (let url_lower = py_lower U url
      in if py_contains (asc ''tiktok.com'') url_lower then Tiktok
         else if py_contains (asc ''youtube.com'') url_lower
                 \<or> py_contains (asc ''youtu.be'') url_lower then Youtube
         else Website)"

declare nat_digits.simps [simp del]

section \<open>Notions of the specification\<close>

text \<open>An ASCII digit, and the number a run of ASCII digits writes in base ten.\<close>

definition ascii_digit :: "nat \<Rightarrow> bool" where
  "ascii_digit c = (48 \<le> c \<and> c \<le> 57)"

definition ascii_number :: "pystr \<Rightarrow> nat" where
  "ascii_number ds = foldl (\<lambda>a c. 10 * a + (c - 48)) 0 ds"

section \<open>A database for running examples\<close>

text \<open>
  A database without entries. An input made of ASCII characters never consults the
  tables, so it runs the same with every database; this one closes the examples.
\<close>

definition ucd0 :: ucd where
  "ucd0 = \<lparr>uc_space = (\<lambda>c. False), uc_decimal = (\<lambda>c. None), uc_digit = (\<lambda>c. False),
            uc_alnum = (\<lambda>c. False), uc_lower = (\<lambda>s. s)\<rparr>"

section \<open>Rounding to binary64\<close>

lemma pow2_pos: "0 < pow2 k"
  by (simp add: pow2_def)

lemma pow2_add: "pow2 (a + b) = pow2 a * pow2 b"
  by (simp add: pow2_def power_int_add)

lemma pow2_diff: "pow2 (a - b) = pow2 a / pow2 b"
  by (simp add: pow2_def power_int_diff)

lemma pow2_mono: "a \<le> b \<Longrightarrow> pow2 a \<le> pow2 b"
  by (simp add: pow2_def power_int_increasing)

lemma pow2_strict_mono: "a < b \<Longrightarrow> pow2 a < pow2 b"
  by (simp add: pow2_def power_int_strict_increasing)

lemma pow2_nat: "pow2 (int n) = 2 ^ n"
  by (simp add: pow2_def)

lemma pow2_Suc: "pow2 (k + 1) = 2 * pow2 k"
  using pow2_add [of k 1] by (simp add: pow2_def)

lemma bitlen_pow2:
  assumes "0 < x"
  shows "pow2 (bitlen x - 1) \<le> of_int x" and "of_int x < pow2 (bitlen x)"
proof -
  have b: "2 ^ nat (bitlen x - 1) \<le> x" "x < 2 ^ nat (bitlen x)"
    using bitlen_bounds [OF assms] by auto
  have p: "0 < bitlen x"
  proof (rule ccontr)
    assume "\<not> 0 < bitlen x"
    then have "nat (bitlen x) = 0" by simp
    with b(2) assms show False by simp
  qed
  have "pow2 (bitlen x - 1) = of_int (2 ^ nat (bitlen x - 1))"
    using p by (simp add: pow2_def power_int_def)
  also have "\<dots> \<le> of_int x"
    using b(1) by (simp only: of_int_le_iff)
  finally show "pow2 (bitlen x - 1) \<le> of_int x" .
  have "(of_int x :: rat) < of_int (2 ^ nat (bitlen x))"
    using b(2) by (simp only: of_int_less_iff)
  also have "\<dots> = pow2 (bitlen x)"
    using p by (simp add: pow2_def power_int_def)
  finally show "of_int x < pow2 (bitlen x)" .
qed

lemma ilog2_bounds:
  assumes "0 < a"
  shows "pow2 (ilog2 a) \<le> a \<and> a < pow2 (ilog2 a + 1)"
proof -
  obtain n d where q: "quotient_of a = (n, d)"
    by (cases "quotient_of a")
  have d: "0 < d"
    using q by (rule quotient_of_denom_pos)
  have a: "a = of_int n / of_int d"
    using q by (rule quotient_of_div)
  have n: "0 < n"
    using assms d a by (simp add: zero_less_divide_iff)
  define k where "k = bitlen n - bitlen d"
  have dq: "(0::rat) < of_int d"
    using d by simp
  have "a < pow2 (bitlen n) / pow2 (bitlen d - 1)"
  proof -
    have "of_int n / of_int d < pow2 (bitlen n) / (of_int d :: rat)"
      using bitlen_pow2(2) [OF n] dq by (simp add: divide_strict_right_mono)
    also have "\<dots> \<le> pow2 (bitlen n) / pow2 (bitlen d - 1)"
      using bitlen_pow2(1) [OF d] pow2_pos [of "bitlen d - 1"] pow2_pos [of "bitlen n"]
      by (simp add: frac_le)
    finally show ?thesis by (simp add: a)
  qed
  then have up: "a < pow2 (k + 1)"
    by (simp add: k_def pow2_diff [symmetric] algebra_simps)
  have "pow2 (bitlen n - 1) / pow2 (bitlen d) < a"
  proof -
    have "pow2 (bitlen n - 1) / pow2 (bitlen d) < pow2 (bitlen n - 1) / (of_int d :: rat)"
      using bitlen_pow2(2) [OF d] dq pow2_pos [of "bitlen n - 1"]
      by (simp add: divide_strict_left_mono)
    also have "\<dots> \<le> of_int n / of_int d"
      using bitlen_pow2(1) [OF n] dq by (simp add: divide_right_mono)
    finally show ?thesis by (simp add: a)
  qed
  then have lo: "pow2 (k - 1) < a"
    by (simp add: k_def pow2_diff [symmetric] algebra_simps)
  show ?thesis
  proof (cases "pow2 k \<le> a")
    case True
    then have "ilog2 a = k"
      by (simp add: ilog2_def q k_def)
    with True up show ?thesis by simp
  next
    case False
    then have "ilog2 a = k - 1"
      by (simp add: ilog2_def q k_def)
    with False lo show ?thesis by simp
  qed
qed

lemma ilog2_eqI:
  assumes "pow2 e \<le> a" and "a < pow2 (e + 1)"
  shows "ilog2 a = e"
proof -
  have pos: "0 < a"
    using assms(1) pow2_pos [of e] by simp
  note b = ilog2_bounds [OF pos]
  have "\<not> ilog2 a < e"
  proof
    assume "ilog2 a < e"
    then have "pow2 (ilog2 a + 1) \<le> pow2 e"
      by (intro pow2_mono) simp
    with b assms show False by simp
  qed
  moreover have "\<not> e < ilog2 a"
  proof
    assume "e < ilog2 a"
    then have "pow2 (e + 1) \<le> pow2 (ilog2 a)"
      by (intro pow2_mono) simp
    with b assms show False by simp
  qed
  ultimately show ?thesis by simp
qed

lemma round_half_even_of_int: "round_half_even (of_int n) = n"
  by (simp add: round_half_even_def)

lemma round_half_even_le:
  assumes "q \<le> of_int n"
  shows "round_half_even q \<le> n"
proof -
  have f: "\<lfloor>q\<rfloor> \<le> n"
    using assms by (simp add: floor_le_iff)
  show ?thesis
  proof (cases "\<lfloor>q\<rfloor> = n")
    case True
    then have "of_int n \<le> q" by (metis of_int_floor_le)
    with assms have "q = of_int n" by simp
    then show ?thesis by (simp add: round_half_even_of_int)
  next
    case False
    with f have "\<lfloor>q\<rfloor> + 1 \<le> n" by simp
    then show ?thesis
      by (simp add: round_half_even_def Let_def)
  qed
qed

lemma round_half_even_ge:
  assumes "of_int n \<le> q"
  shows "n \<le> round_half_even q"
proof -
  have "n \<le> \<lfloor>q\<rfloor>"
    using assms by (simp add: le_floor_iff)
  then show ?thesis
    by (simp add: round_half_even_def Let_def)
qed

lemma rd_exact:
  assumes m: "\<bar>m\<bar> < 2 ^ 53" and k: "- 1074 \<le> k"
    and b: "\<bar>of_int m * pow2 k\<bar> < pow2 1024"
  shows "rd (of_int m * pow2 k) = Some (of_int m * pow2 k)"
proof (cases "m = 0")
  case True
  then show ?thesis by (simp add: rd_def)
next
  case False
  define a :: rat where "a = \<bar>of_int m * pow2 k\<bar>"
  define e where "e = max (ilog2 a) (- 1022) - 52"
  have am: "a = of_int \<bar>m\<bar> * pow2 k"
    using pow2_pos [of k] by (simp add: a_def abs_mult)
  have apos: "0 < a"
    using False pow2_pos [of k] by (simp add: am)
  have "a < pow2 53 * pow2 k"
  proof -
    have "(of_int \<bar>m\<bar> :: rat) < of_int (2 ^ 53)"
      using m by (simp only: of_int_less_iff)
    then have "(of_int \<bar>m\<bar> :: rat) < pow2 53"
      by (simp add: pow2_def)
    then show ?thesis
      using pow2_pos [of k] by (simp add: am)
  qed
  then have "a < pow2 (k + 53)"
    by (simp add: pow2_add mult.commute)
  with ilog2_bounds [OF apos] have "pow2 (ilog2 a) < pow2 (k + 53)"
    by simp
  then have "ilog2 a < k + 53"
    by (metis not_le pow2_mono leD)
  with k have ek: "e \<le> k"
    by (simp add: e_def)
  have "a / pow2 e = of_int \<bar>m\<bar> * pow2 (k - e)"
    by (simp add: am pow2_diff)
  also have "pow2 (k - e) = of_int (2 ^ nat (k - e))"
    using ek by (simp add: pow2_def power_int_def)
  finally have "a / pow2 e = of_int (\<bar>m\<bar> * 2 ^ nat (k - e))"
    by simp
  then have "of_int (round_half_even (a / pow2 e)) = a / pow2 e"
    by (simp only: round_half_even_of_int)
  then have r: "of_int (round_half_even (a / pow2 e)) * pow2 e = a"
    using pow2_pos [of e] by simp
  have q0: "of_int m * pow2 k \<noteq> 0"
    using False pow2_pos [of k] by simp
  show ?thesis
    using q0 b r
    by (simp add: rd_def Let_def a_def [symmetric] e_def [symmetric])
       (simp add: a_def)
qed

lemma rd_of_int:
  assumes "\<bar>n\<bar> \<le> 2 ^ 53"
  shows "rd (of_int n) = Some (of_int n)"
proof (cases "\<bar>n\<bar> < 2 ^ 53")
  case True
  have "\<bar>(of_int n :: rat) * pow2 0\<bar> < pow2 1024"
  proof -
    have "(of_int \<bar>n\<bar> :: rat) < of_int (2 ^ 53)"
      using True by (simp only: of_int_less_iff)
    also have "\<dots> \<le> pow2 1024"
      by (simp add: pow2_def)
    finally show ?thesis by (simp add: pow2_def)
  qed
  from rd_exact [OF True _ this] show ?thesis
    by (simp add: pow2_def)
next
  case False
  with assms have "n = 2 ^ 53 \<or> n = - (2 ^ 53)" by auto
  then show ?thesis
  proof
    assume n: "n = 2 ^ 53"
    have "rd (of_int 1 * pow2 53) = Some (of_int 1 * pow2 53)"
      by (rule rd_exact) (simp_all add: pow2_def)
    then show ?thesis by (simp add: n pow2_def)
  next
    assume n: "n = - (2 ^ 53)"
    have "rd (of_int (- 1) * pow2 53) = Some (of_int (- 1) * pow2 53)"
      by (rule rd_exact) (simp_all add: pow2_def)
    then show ?thesis by (simp add: n pow2_def)
  qed
qed

lemma float_of_rat_of_int: "\<bar>n\<bar> \<le> 2 ^ 53 \<Longrightarrow> float_of_rat (of_int n) = Finite (of_int n)"
  by (simp add: float_of_rat_def rd_of_int)

lemma float_of_rat_numeral:
  "(numeral w :: int) \<le> 2 ^ 53 \<Longrightarrow> float_of_rat (numeral w) = Finite (numeral w)"
  using float_of_rat_of_int [of "numeral w"] by simp

lemma float_of_rat_0: "float_of_rat 0 = Finite 0"
  by (simp add: float_of_rat_def rd_def)

lemma float_of_rat_1: "float_of_rat 1 = Finite 1"
  using float_of_rat_of_int [of 1] by simp

lemma float_of_rat_half:
  assumes "\<bar>n\<bar> < 2 ^ 53"
  shows "float_of_rat (of_int n / 2) = Finite (of_int n / 2)"
proof -
  have "(of_int \<bar>n\<bar> :: rat) < of_int (2 ^ 53)"
    using assms by (simp only: of_int_less_iff)
  then have "\<bar>of_int n * pow2 (- 1)\<bar> < pow2 1024"
    by (simp add: pow2_def power_int_minus)
  from rd_exact [OF assms _ this] show ?thesis
    by (simp add: float_of_rat_def pow2_def power_int_minus)
qed

lemma py_float_of_int_exact: "\<bar>n\<bar> \<le> 2 ^ 53 \<Longrightarrow> py_float_of_int n = Inr (Finite (of_int n))"
  by (simp add: py_float_of_int_def rd_of_int)

lemma round_half_even_half:
  "round_half_even (of_int k + 1 / 2) = (if even k then k else k + 1)"
proof -
  have "\<lfloor>(of_int k :: rat) + 1 / 2\<rfloor> = k"
    by (simp add: floor_unique)
  then show ?thesis
    by (simp add: round_half_even_def Let_def)
qed

lemma round_half_even_numeral: "round_half_even (numeral w) = numeral w"
  using round_half_even_of_int [of "numeral w"] by simp

lemma round_half_even_neg_numeral: "round_half_even (- numeral w) = - numeral w"
  using round_half_even_of_int [of "- numeral w"] by simp

lemma round_half_even_0: "round_half_even 0 = 0"
  using round_half_even_of_int [of 0] by simp

lemma round_half_even_1: "round_half_even 1 = 1"
  using round_half_even_of_int [of 1] by simp

lemma round_half_even_one_half: "round_half_even (1 / 2) = 0"
  using round_half_even_half [of 0] by simp

lemma round_half_even_int_half:
  "round_half_even (of_int n / 2) =
     (if even n then n div 2 else if even (n div 2) then n div 2 else n div 2 + 1)"
proof (cases "even n")
  case True
  then obtain k where k: "n = 2 * k" by (elim evenE)
  then have "(of_int n :: rat) / 2 = of_int k" by simp
  then show ?thesis
    using True k by (simp add: round_half_even_of_int)
next
  case False
  then obtain k where k: "n = 2 * k + 1" by (elim oddE)
  then have "(of_int n :: rat) / 2 = of_int k + 1 / 2" by (simp add: field_simps)
  then have "round_half_even (of_int n / 2) = (if even k then k else k + 1)"
    by (simp only: round_half_even_half)
  moreover have "n div 2 = k" "odd n"
    using k by simp_all
  ultimately show ?thesis
    by simp
qed

lemma round_half_even_numeral_half:
  "round_half_even (numeral w / 2) =
     (if even (numeral w :: int) then numeral w div 2
      else if even ((numeral w :: int) div 2) then numeral w div 2 else numeral w div 2 + 1)"
  using round_half_even_int_half [of "numeral w"] by (simp only: of_int_numeral)

lemma float_of_rat_numeral_half:
  "(numeral w :: int) < 2 ^ 53 \<Longrightarrow> float_of_rat (numeral w / 2) = Finite (numeral w / 2)"
  using float_of_rat_half [of "numeral w"] by simp

lemma float_of_rat_one_half: "float_of_rat (1 / 2) = Finite (1 / 2)"
  using float_of_rat_half [of 1] by simp

subsection \<open>Running the model\<close>

text \<open>The equations that evaluate the model on a concrete input.\<close>

lemmas str_defs = asc_def py_strip_def py_lower_def ascii_lower_def py_isdigit_def is_digit_def
  is_decimal_def decimal_value_def is_space_def is_word_def py_replace_def py_int_def
  max_str_digits_def
  digits_value_def digit_of_def py_float_def

lemmas rx_defs = lits_def num_def hour_pattern_def minute_pattern_def second_pattern_def
  compact_hm_re_def compact_h_re_def compact_m_re_def colon_re_def iso_re_def range_re_def
  finditer_def match_here_def adv_def word_at_def next_char_def
  re_match_def re_fullmatch_def re_search_def grp_def group_text_def group_float_def Let_def

lemmas fl_simps = float_of_rat_numeral float_of_rat_0 float_of_rat_1 py_float_of_int_exact
  float_of_rat_numeral_half float_of_rat_one_half
  round_half_even_numeral round_half_even_neg_numeral round_half_even_0 round_half_even_1
  round_half_even_one_half round_half_even_numeral_half

lemmas norm_defs = time_str_minutes_def words_total_def unit_total_def compact_total_def
  iso_total_def colon_minutes_def clock_total_def servings_str_def num_minutes_def

section \<open>Unit words\<close>

text \<open>
  Claim C2. The unit-word stage sums the number-plus-unit-word occurrences, and the
  claim gives five strings with their minutes. Three of them run as the claim says. The
  two without blanks do not: in \<^verbatim>\<open>1h30m\<close> and \<^verbatim>\<open>1hr30min\<close> the hour word is followed by
  a digit, so \<^verbatim>\<open>\b\<close> fails and no hour is found; the minutes are found, the total is 30 and
  not 0, and the compact stage, whose pattern \<^verbatim>\<open>(\d+)h\s*(\d+)m\<close> is written for such a
  string, is not entered.
\<close>

theorem unit_words_examples:
  "parse_time_to_minutes U (PStr (asc ''1 hour 30 minutes'')) = Inr 90
   \<and> parse_time_to_minutes U (PStr (asc ''90 min'')) = Inr 90
   \<and> parse_time_to_minutes U (PStr (asc ''2 hrs'')) = Inr 120
   \<and> parse_time_to_minutes U (PStr (asc ''1hr30min'')) = Inr 30
   \<and> parse_time_to_minutes U (PStr (asc ''1h30m'')) = Inr 30"
  by (simp add: norm_defs str_defs rx_defs fl_simps)

section \<open>Ranges of servings\<close>

text \<open>
  Claim C3. A range written with a hyphen gives its first number. A range written with
  the word \<^verbatim>\<open>to\<close> is not recognized: the class \<^verbatim>\<open>[-..to]\<close> takes one character, \<^verbatim>\<open>t\<close> or
  \<^verbatim>\<open>o\<close>, and a digit must follow it. The result is then the first number of the string,
  which is the first number of the range only when no number stands before the range.
\<close>

theorem servings_range_examples:
  "parse_servings_to_int U (PStr (asc ''4-6'')) = Inr 4
   \<and> parse_servings_to_int U (PStr (asc ''4 to 6 servings'')) = Inr 4
   \<and> parse_servings_to_int U (PStr (asc ''2 dozen (24-30 cookies)'')) = Inr 24
   \<and> parse_servings_to_int U (PStr (asc ''2 dozen (24 to 30 cookies)'')) = Inr 2
   \<and> re_search U range_re (asc ''24 to 30'') = None"
  by (simp add: norm_defs str_defs rx_defs fl_simps)

section \<open>The rounding rule\<close>

text \<open>
  Claim C10. Every branch that rounds does so with \<^verbatim>\<open>round\<close>, which takes a value half way
  between two integers to the even one: the numeric branch of both normalizers, the first
  number of a servings text, and the colon, ISO, unit-word and bare-number branches of a
  duration text; and a float \<open>k + 1/2\<close> is taken to \<open>k\<close> when \<open>k\<close> is even and to \<open>k + 1\<close>
  when it is odd.
\<close>

theorem rounding_half_to_even:
  "parse_time_to_minutes U (PFloat (Finite (5 / 2))) = Inr 2
   \<and> parse_time_to_minutes U (PFloat (Finite (7 / 2))) = Inr 4
   \<and> parse_servings_to_int U (PStr (asc ''2.5'')) = Inr 2
   \<and> parse_servings_to_int U (PStr (asc ''3.5'')) = Inr 4
   \<and> parse_servings_to_int U (PFloat (Finite (5 / 2))) = Inr 2
   \<and> parse_servings_to_int U (PFloat (Finite (7 / 2))) = Inr 4
   \<and> parse_time_to_minutes U (PStr (asc ''0:02:30'')) = Inr 2
   \<and> parse_time_to_minutes U (PStr (asc ''0:03:30'')) = Inr 4
   \<and> parse_time_to_minutes U (PStr (asc ''PT2.5M'')) = Inr 2
   \<and> parse_time_to_minutes U (PStr (asc ''PT3M30S'')) = Inr 4
   \<and> parse_time_to_minutes U (PStr (asc ''2 min 30 sec'')) = Inr 2
   \<and> parse_time_to_minutes U (PStr (asc ''3.5 minutes'')) = Inr 4
   \<and> parse_time_to_minutes U (PStr (asc ''about 2.5'')) = Inr 2
   \<and> (\<forall>k. parse_time_to_minutes U (PFloat (Finite (of_int k + 1 / 2)))
            = Inr (if even k then k else k + 1))
   \<and> (\<forall>k. parse_servings_to_int U (PFloat (Finite (of_int k + 1 / 2)))
            = Inr (if even k then k else k + 1))"
  by (simp add: norm_defs str_defs rx_defs fl_simps round_half_even_half)

section \<open>Classification of URLs\<close>

lemma py_contains_iff: "py_contains sub s \<longleftrightarrow> (\<exists>pre suf. s = pre @ sub @ suf)"
proof (induction s)
  case Nil
  show ?case by auto
next
  case (Cons c cs)
  have pre: "take (length sub) (c # cs) = sub \<longleftrightarrow> (\<exists>suf. c # cs = sub @ suf)"
    by (metis append_eq_conv_conj append_take_drop_id)
  show ?case
  proof
    assume "py_contains sub (c # cs)"
    then consider "take (length sub) (c # cs) = sub" | "py_contains sub cs"
      by auto
    then show "\<exists>pre suf. c # cs = pre @ sub @ suf"
    proof cases
      case 1
      with pre obtain suf where "c # cs = [] @ sub @ suf" by auto
      then show ?thesis by blast
    next
      case 2
      with Cons.IH obtain pre suf where "cs = pre @ sub @ suf" by auto
      then have "c # cs = (c # pre) @ sub @ suf" by simp
      then show ?thesis by blast
    qed
  next
    assume "\<exists>pre suf. c # cs = pre @ sub @ suf"
    then obtain pre suf where e: "c # cs = pre @ sub @ suf" by auto
    show "py_contains sub (c # cs)"
    proof (cases pre)
      case Nil
      with e have "\<exists>suf. c # cs = sub @ suf" by auto
      with pre have "take (length sub) (c # cs) = sub" by blast
      then show ?thesis by (simp only: py_contains.simps) blast
    next
      case (Cons x xs)
      with e have "cs = xs @ sub @ suf" by simp
      with Cons.IH show ?thesis by auto
    qed
  qed
qed

text \<open>
  Claim C9, as stated, asks for the tag of every known domain the URL contains. A URL
  can contain the domains of both platforms, and then the tag is that of the first test:
  the URL below contains \<^verbatim>\<open>youtube.com\<close> and is classified as the other platform.
\<close>

theorem get_platform_counterexample:
  "py_contains (asc ''youtube.com'') (py_lower ucd0 (asc ''https://youtube.com/watch?ref=tiktok.com''))
   \<and> get_platform ucd0 (asc ''https://youtube.com/watch?ref=tiktok.com'') = Tiktok"
  by (simp add: get_platform_def str_defs)

text \<open>
  Claim C9, amended. The URL is lowered, and the tests are made in a fixed order: the
  first platform if the lowered URL contains \<^verbatim>\<open>tiktok.com\<close> anywhere; otherwise the second
  if it contains \<^verbatim>\<open>youtube.com\<close> or \<^verbatim>\<open>youtu.be\<close> anywhere; otherwise the generic tag.
  Nothing else of the URL (scheme, path, query) is looked at.
\<close>

theorem get_platform_priority:
  "get_platform U url =
     (if (\<exists>pre suf. py_lower U url = pre @ asc ''tiktok.com'' @ suf) then Tiktok
      else if (\<exists>pre suf. py_lower U url = pre @ asc ''youtube.com'' @ suf)
              \<or> (\<exists>pre suf. py_lower U url = pre @ asc ''youtu.be'' @ suf) then Youtube
      else Website)"
  by (simp only: get_platform_def Let_def py_contains_iff)

theorem get_platform_priority_witness:
  "get_platform ucd0 (asc ''HTTPS://YouTu.be/dQw4'') = Youtube
   \<and> get_platform ucd0 (asc ''https://www.TikTok.com/@cook/video/1'') = Tiktok
   \<and> get_platform ucd0 (asc ''https://example.org/recipe'') = Website"
  using get_platform_priority [of ucd0 "asc ''HTTPS://YouTu.be/dQw4''"]
  by (simp add: get_platform_def str_defs)

section \<open>Pure digits come first\<close>

lemma ascii_digit_classes:
  assumes "ascii_digit c"
  shows "is_decimal U c" and "is_digit U c" and "\<not> is_space U c" and "c < 128"
    and "ascii_lower c = c" and "digit_of U c = c - 48"
  using assms
  by (simp_all add: ascii_digit_def is_decimal_def is_digit_def is_space_def decimal_value_def
        ascii_lower_def digit_of_def)

lemma digits_value_ascii_aux:
  "list_all ascii_digit ds \<Longrightarrow>
     foldl (\<lambda>a c. 10 * a + digit_of U c) a ds = foldl (\<lambda>a c. 10 * a + (c - 48)) a ds"
  by (induction ds arbitrary: a) (simp_all add: ascii_digit_classes)

lemma digits_value_ascii: "list_all ascii_digit ds \<Longrightarrow> digits_value U ds = ascii_number ds"
  by (simp add: digits_value_def ascii_number_def digits_value_ascii_aux)

lemma py_lower_digits: "list_all ascii_digit ds \<Longrightarrow> py_lower U ds = ds"
proof -
  assume d: "list_all ascii_digit ds"
  then have "list_all (\<lambda>c. c < 128) ds"
    by (induction ds) (simp_all add: ascii_digit_classes)
  moreover from d have "map ascii_lower ds = ds"
    by (induction ds) (simp_all add: ascii_digit_classes)
  ultimately show ?thesis
    by (simp add: py_lower_def)
qed

lemma py_isdigit_digits: "ds \<noteq> [] \<Longrightarrow> list_all ascii_digit ds \<Longrightarrow> py_isdigit U ds"
  by (simp add: py_isdigit_def list_all_iff ascii_digit_classes)

lemma py_int_digits:
  "ds \<noteq> [] \<Longrightarrow> list_all ascii_digit ds \<Longrightarrow> length ds \<le> max_str_digits \<Longrightarrow>
     py_int U ds = Inr (int (ascii_number ds))"
  by (simp add: py_int_def list_all_iff ascii_digit_classes digits_value_ascii)

lemma py_int_long: "max_str_digits < length ds \<Longrightarrow> py_int U ds = Inl ValueError"
  by (simp add: py_int_def)

lemma time_str_digits:
  "py_strip U t = ds \<Longrightarrow> ds \<noteq> [] \<Longrightarrow> list_all ascii_digit ds \<Longrightarrow> length ds \<le> max_str_digits \<Longrightarrow>
     time_str_minutes U t = Inr (int (ascii_number ds))"
  by (simp add: time_str_minutes_def py_lower_digits py_isdigit_digits py_int_digits)

lemma servings_str_digits:
  "py_strip U t = ds \<Longrightarrow> ds \<noteq> [] \<Longrightarrow> list_all ascii_digit ds \<Longrightarrow> length ds \<le> max_str_digits \<Longrightarrow>
     servings_str U t = Inr (int (ascii_number ds))"
  by (simp add: servings_str_def py_lower_digits py_isdigit_digits py_int_digits)

lemma time_str_long:
  assumes "py_strip U t = ds" and "list_all ascii_digit ds" and "max_str_digits < length ds"
  shows "time_str_minutes U t = Inl ValueError"
proof -
  have "ds \<noteq> []"
    using assms(3) by auto
  with assms show ?thesis
    by (simp add: time_str_minutes_def py_lower_digits py_isdigit_digits py_int_long)
qed

lemma servings_str_long:
  assumes "py_strip U t = ds" and "list_all ascii_digit ds" and "max_str_digits < length ds"
  shows "servings_str U t = Inl ValueError"
proof -
  have "ds \<noteq> []"
    using assms(3) by auto
  with assms show ?thesis
    by (simp add: servings_str_def py_lower_digits py_isdigit_digits py_int_long)
qed

lemma list_all_replicate: "P x \<Longrightarrow> list_all P (replicate n x)"
  by (induction n) simp_all

lemma py_strip_ascii_digits: "list_all ascii_digit ds \<Longrightarrow> py_strip U ds = ds"
proof -
  assume d: "list_all ascii_digit ds"
  have a: "dropWhile (is_space U) xs = xs" if "list_all ascii_digit xs" for xs
    using that by (cases xs) (simp_all add: ascii_digit_classes)
  have "list_all ascii_digit (rev ds)"
    using d by (simp add: list_all_iff)
  with d show ?thesis
    by (simp add: py_strip_def a)
qed

text \<open>
  Claim C7, as stated, covers every run of digits. The branch of \<^verbatim>\<open>isdigit\<close> calls
  \<^verbatim>\<open>int\<close>, which takes at most 4300 digits: on a run of 4301 digits \<^verbatim>\<open>1\<close> both
  normalizers raise \<^verbatim>\<open>ValueError\<close> and return no number.
\<close>

theorem pure_digits_counterexample:
  "list_all ascii_digit (replicate 4301 49)
   \<and> py_strip ucd0 (replicate 4301 49) = replicate 4301 49
   \<and> parse_time_to_minutes ucd0 (PStr (replicate 4301 49)) = Inl ValueError
   \<and> parse_servings_to_int ucd0 (PStr (replicate 4301 49)) = Inl ValueError"
proof -
  have d: "list_all ascii_digit (replicate 4301 49)"
    by (rule list_all_replicate) (simp add: ascii_digit_def)
  have s: "py_strip ucd0 (replicate 4301 49) = replicate 4301 49"
    using d by (rule py_strip_ascii_digits)
  have l: "max_str_digits < length (replicate 4301 (49::nat))"
    by (simp add: max_str_digits_def)
  from time_str_long [OF s d l] servings_str_long [OF s d l] d s show ?thesis
    by simp
qed

text \<open>
  Claim C7, amended. When the trimmed text is a non-empty run of at most 4300 of the
  digits \<^verbatim>\<open>0\<close> to \<^verbatim>\<open>9\<close>, both normalizers return the number this run writes in base ten:
  the test \<^verbatim>\<open>isdigit\<close> comes before every pattern, and its branch returns at once, so the
  result owes nothing to the colon, ISO, unit-word, compact or bare-number grammar. When
  the run has more than 4300 digits, the same branch raises \<^verbatim>\<open>ValueError\<close> in both.
\<close>

theorem pure_digits_first:
  assumes "py_strip U t = ds" and "ds \<noteq> []" and "list_all ascii_digit ds"
  shows "(length ds \<le> max_str_digits \<longrightarrow>
            parse_time_to_minutes U (PStr t) = Inr (int (ascii_number ds))
            \<and> parse_servings_to_int U (PStr t) = Inr (int (ascii_number ds)))
         \<and> (max_str_digits < length ds \<longrightarrow>
            parse_time_to_minutes U (PStr t) = Inl ValueError
            \<and> parse_servings_to_int U (PStr t) = Inl ValueError)"
  using assms by (simp add: time_str_digits servings_str_digits time_str_long servings_str_long)

theorem pure_digits_first_witness:
  "py_strip ucd0 (asc '' 5 '') = asc ''5'' \<and> asc ''5'' \<noteq> [] \<and> list_all ascii_digit (asc ''5'')
   \<and> length (asc ''5'') \<le> max_str_digits
   \<and> parse_time_to_minutes ucd0 (PStr (asc '' 5 '')) = Inr 5
   \<and> parse_servings_to_int ucd0 (PStr (asc '' 5 '')) = Inr 5
   \<and> parse_time_to_minutes ucd0 (PStr (asc ''0090'')) = Inr 90"
proof -
  have a: "py_strip ucd0 (asc '' 5 '') = asc ''5''"
    by (simp add: str_defs)
  have b: "asc ''5'' \<noteq> []" and c: "list_all ascii_digit (asc ''5'')"
    by (simp_all add: str_defs ascii_digit_def)
  have l: "length (asc ''5'') \<le> max_str_digits"
    by (simp add: str_defs)
  have d: "ascii_number (asc ''5'') = 5"
    by (simp add: ascii_number_def str_defs)
  have e: "parse_time_to_minutes ucd0 (PStr (asc ''0090'')) = Inr 90"
    by (simp add: norm_defs str_defs)
  from pure_digits_first [OF a b c] a b c l d e show ?thesis
    by simp
qed

section \<open>Stability\<close>

lemma nat_digits_ascii: "list_all ascii_digit (nat_digits n)"
proof (induction n rule: nat_digits.induct)
  case (1 n)
  show ?case
  proof (cases "n < 10")
    case True
    then show ?thesis
      by (subst nat_digits.simps) (simp add: ascii_digit_def)
  next
    case False
    have "n mod 10 < 10" by simp
    then have "ascii_digit (48 + n mod 10)"
      unfolding ascii_digit_def by linarith
    with False "1.IH" show ?thesis
      by (subst nat_digits.simps) simp
  qed
qed

lemma nat_digits_nonempty: "nat_digits n \<noteq> []"
  by (subst nat_digits.simps) simp

lemma ascii_number_snoc: "ascii_number (ds @ [c]) = 10 * ascii_number ds + (c - 48)"
  by (simp add: ascii_number_def)

lemma ascii_number_nat_digits: "ascii_number (nat_digits n) = n"
proof (induction n rule: nat_digits.induct)
  case (1 n)
  show ?case
  proof (cases "n < 10")
    case True
    then show ?thesis
      by (subst nat_digits.simps) (simp add: ascii_number_def)
  next
    case False
    with "1.IH" show ?thesis
      by (subst nat_digits.simps) (simp add: ascii_number_snoc)
  qed
qed

lemma py_strip_no_space:
  assumes "list_all (\<lambda>c. \<not> is_space U c) ds"
  shows "py_strip U ds = ds"
proof -
  have a: "dropWhile (is_space U) xs = xs" if "list_all (\<lambda>c. \<not> is_space U c) xs" for xs
    using that by (cases xs) simp_all
  have "list_all (\<lambda>c. \<not> is_space U c) (rev ds)"
    using assms by (simp add: list_all_iff)
  with assms show ?thesis
    by (simp add: py_strip_def a)
qed

lemma py_strip_digits: "list_all ascii_digit ds \<Longrightarrow> py_strip U ds = ds"
  by (rule py_strip_no_space) (simp add: list_all_iff ascii_digit_classes)

lemma nat_digits_length: "n < 10 ^ k \<Longrightarrow> 0 < k \<Longrightarrow> length (nat_digits n) \<le> k"
proof (induction n arbitrary: k rule: nat_digits.induct)
  case (1 n)
  show ?case
  proof (cases "n < 10")
    case True
    with "1.prems" show ?thesis
      by (subst nat_digits.simps) simp
  next
    case False
    obtain j where k: "k = Suc j"
      using "1.prems"(2) by (cases k) simp_all
    have j: "0 < j"
      using False "1.prems"(1) k by (cases j) simp_all
    have "n div 10 < 10 ^ j"
      using "1.prems"(1) k by (simp add: less_mult_imp_div_less mult.commute)
    from "1.IH" [OF False this j] False k show ?thesis
      by (subst nat_digits.simps) simp
  qed
qed

lemma time_str_of_nat:
  assumes "n < 10 ^ max_str_digits"
  shows "time_str_minutes U (nat_digits n) = Inr (int n)"
proof -
  have "length (nat_digits n) \<le> max_str_digits"
    using assms by (rule nat_digits_length) (simp add: max_str_digits_def)
  from time_str_digits [OF py_strip_digits [OF nat_digits_ascii] nat_digits_nonempty
      nat_digits_ascii this, of U]
  show ?thesis
    by (simp add: ascii_number_nat_digits)
qed

text \<open>
  Claim C8, as stated, covers every input. A negative number is returned as it is, its
  string form has a minus sign, which no grammar reads, and the bare-number fallback
  finds the digits after the sign: the input \<open>-5\<close> gives \<open>-5\<close>, and \<^verbatim>\<open>"-5"\<close> gives \<open>5\<close>.
\<close>

theorem stability_counterexample:
  "parse_time_to_minutes ucd0 (PInt (- 5)) = Inr (- 5)
   \<and> py_str_int (- 5) = asc ''-5''
   \<and> parse_time_to_minutes ucd0 (PStr (py_str_int (- 5))) = Inr 5"
  by (simp add: norm_defs str_defs rx_defs fl_simps py_str_int_def nat_digits.simps)

text \<open>
  Claim C8, amended. For every input on which the duration normalizer returns a
  non-negative integer, normalizing the string form of that integer returns it again.
  The integer is one that \<^verbatim>\<open>str\<close> and \<^verbatim>\<open>int\<close> convert, of at most 4300 digits: so is every
  integer that the source returns, which comes from \<^verbatim>\<open>int\<close> of a text or from a float, and
  a float is below \<open>2\<^sup>1\<^sup>0\<^sup>2\<^sup>4\<close>.
\<close>

theorem stability_nonneg:
  assumes "parse_time_to_minutes U x = Inr n" and "0 \<le> n" and "n < 10 ^ max_str_digits"
  shows "parse_time_to_minutes U (PStr (py_str_int n)) = parse_time_to_minutes U x"
proof -
  have "nat n < 10 ^ max_str_digits"
    using assms(2,3) by (simp add: nat_less_iff)
  from time_str_of_nat [OF this, of U] assms(1,2) show ?thesis
    by (simp add: py_str_int_def)
qed

theorem stability_nonneg_witness:
  "parse_time_to_minutes ucd0 (PStr (asc ''1 hour 30 minutes'')) = Inr 90 \<and> (0::int) \<le> 90
   \<and> (90::int) < 10 ^ max_str_digits
   \<and> py_str_int 90 = asc ''90''
   \<and> parse_time_to_minutes ucd0 (PStr (py_str_int 90))
       = parse_time_to_minutes ucd0 (PStr (asc ''1 hour 30 minutes''))"
proof -
  have a: "parse_time_to_minutes ucd0 (PStr (asc ''1 hour 30 minutes'')) = Inr 90"
    by (simp add: norm_defs str_defs rx_defs fl_simps)
  have b: "(0::int) \<le> 90"
    by simp
  have "(10::int) ^ 2 \<le> 10 ^ max_str_digits"
    by (rule power_increasing) (simp_all add: max_str_digits_def)
  then have l: "(90::int) < 10 ^ max_str_digits"
    by simp
  have c: "py_str_int 90 = asc ''90''"
    by (simp add: py_str_int_def nat_digits.simps str_defs)
  from stability_nonneg [OF a b l] a b l c show ?thesis
    by simp
qed

section \<open>Numeric inputs\<close>

lemma ilog2_big: "ilog2 9007199254740993 = 53"
  by (rule ilog2_eqI) (simp_all add: pow2_def)

lemma rd_big: "rd 9007199254740993 = Some 9007199254740992"
  by (simp add: rd_def ilog2_big Let_def pow2_def round_half_even_numeral_half)

text \<open>
  Claim C6, as stated, gives \<^verbatim>\<open>round(n)\<close> for every number. An integer is first made a
  float, and \<open>2\<^sup>5\<^sup>3 + 1\<close> is no float: it becomes \<open>2\<^sup>5\<^sup>3\<close>, which is returned, while
  \<^verbatim>\<open>round\<close> of the integer is the integer itself.
\<close>

theorem numeric_counterexample:
  "parse_time_to_minutes ucd0 (PInt 9007199254740993) = Inr 9007199254740992
   \<and> parse_servings_to_int ucd0 (PInt 9007199254740993) = Inr 9007199254740992
   \<and> (9007199254740993 :: int) = 2 ^ 53 + 1"
  using rd_big
  by (simp add: num_minutes_def py_float_of_int_def round_half_even_numeral)

lemma py_float_of_int_repr:
  assumes m: "\<bar>m\<bar> < 2 ^ 53" and b: "\<bar>m\<bar> * 2 ^ k < 2 ^ 1024"
  shows "py_float_of_int (m * 2 ^ k) = Inr (Finite (of_int (m * 2 ^ k)))"
proof -
  have "(of_int (\<bar>m\<bar> * 2 ^ k) :: rat) < of_int (2 ^ 1024)"
    using b by (simp only: of_int_less_iff)
  then have "\<bar>(of_int m :: rat) * pow2 (int k)\<bar> < pow2 1024"
    by (simp add: pow2_nat abs_mult pow2_def)
  from rd_exact [OF m _ this] show ?thesis
    by (simp add: py_float_of_int_def pow2_nat)
qed

lemma rd_overflow:
  assumes "pow2 1024 \<le> \<bar>q\<bar>"
  shows "rd q = None"
proof -
  define a where "a = \<bar>q\<bar>"
  define e where "e = ilog2 a"
  have apos: "0 < a"
    using assms pow2_pos [of 1024] by (simp add: a_def)
  note b = ilog2_bounds [OF apos, folded e_def]
  have "pow2 1024 < pow2 (e + 1)"
    using assms b by (simp add: a_def)
  then have e1: "1024 \<le> e"
    by (metis not_le pow2_mono leD zless_add1_eq order_le_less)
  then have mx: "max e (- 1022) - 52 = e - 52"
    by simp
  have "pow2 52 = pow2 e / pow2 (e - 52)"
    by (simp add: pow2_diff [symmetric])
  also have "\<dots> \<le> a / pow2 (e - 52)"
    using b pow2_pos [of "e - 52"] by (simp add: divide_right_mono)
  finally have "(of_int (2 ^ 52) :: rat) \<le> a / pow2 (e - 52)"
    by (simp add: pow2_def)
  then have "2 ^ 52 \<le> round_half_even (a / pow2 (e - 52))"
    by (rule round_half_even_ge)
  then have "(of_int (2 ^ 52) :: rat) \<le> of_int (round_half_even (a / pow2 (e - 52)))"
    by (simp only: of_int_le_iff)
  then have "pow2 52 * pow2 (e - 52) \<le> of_int (round_half_even (a / pow2 (e - 52))) * pow2 (e - 52)"
    using pow2_pos [of "e - 52"] by (simp add: pow2_def)
  moreover have "pow2 52 * pow2 (e - 52) = pow2 e"
    by (simp add: pow2_add [symmetric])
  moreover have "pow2 1024 \<le> pow2 e"
    using e1 by (rule pow2_mono)
  ultimately have "pow2 1024 \<le> of_int (round_half_even (a / pow2 (e - 52))) * pow2 (e - 52)"
    by simp
  moreover have "q \<noteq> 0"
    using apos by (auto simp: a_def)
  ultimately show ?thesis
    by (simp add: rd_def Let_def a_def [symmetric] e_def [symmetric] mx)
qed

lemma py_float_of_int_overflow:
  assumes "2 ^ 1024 \<le> \<bar>n\<bar>"
  shows "py_float_of_int n = Inl OverflowError"
proof -
  have "(of_int (2 ^ 1024) :: rat) \<le> of_int \<bar>n\<bar>"
    using assms by (simp only: of_int_le_iff)
  then have "pow2 1024 \<le> \<bar>of_int n :: rat\<bar>"
    by (simp add: pow2_def)
  then show ?thesis
    by (simp add: py_float_of_int_def rd_overflow)
qed

text \<open>
  Claim C6, amended. An integer that a float represents, that is \<open>m\<close> times \<open>2\<^sup>k\<close> with
  \<open>|m| < 2\<^sup>5\<^sup>3\<close> and of magnitude below \<open>2\<^sup>1\<^sup>0\<^sup>2\<^sup>4\<close>, is returned as it is by both
  normalizers, and a finite float is rounded to the nearest integer, ties to even. In
  both normalizers an integer of magnitude \<open>2\<^sup>1\<^sup>0\<^sup>2\<^sup>4\<close> or more raises \<^verbatim>\<open>OverflowError\<close>, a
  NaN raises \<^verbatim>\<open>ValueError\<close> and an infinity \<^verbatim>\<open>OverflowError\<close>. \<^verbatim>\<open>None\<close> gives 0 in both,
  and the empty string gives 0 minutes.
\<close>

theorem numeric_inputs:
  "(\<bar>m\<bar> < 2 ^ 53 \<and> \<bar>m\<bar> * 2 ^ k < 2 ^ 1024 \<longrightarrow>
      parse_time_to_minutes U (PInt (m * 2 ^ k)) = Inr (m * 2 ^ k)
      \<and> parse_servings_to_int U (PInt (m * 2 ^ k)) = Inr (m * 2 ^ k))
   \<and> (2 ^ 1024 \<le> \<bar>n\<bar> \<longrightarrow>
      parse_time_to_minutes U (PInt n) = Inl OverflowError
      \<and> parse_servings_to_int U (PInt n) = Inl OverflowError)
   \<and> parse_time_to_minutes U (PFloat (Finite q)) = Inr (round_half_even q)
   \<and> parse_servings_to_int U (PFloat (Finite q)) = Inr (round_half_even q)
   \<and> parse_time_to_minutes U (PFloat NaN) = Inl ValueError
   \<and> parse_servings_to_int U (PFloat NaN) = Inl ValueError
   \<and> parse_time_to_minutes U (PFloat PosInf) = Inl OverflowError
   \<and> parse_servings_to_int U (PFloat PosInf) = Inl OverflowError
   \<and> parse_time_to_minutes U (PFloat NegInf) = Inl OverflowError
   \<and> parse_servings_to_int U (PFloat NegInf) = Inl OverflowError
   \<and> parse_time_to_minutes U PNone = Inr 0
   \<and> parse_time_to_minutes U (PStr []) = Inr 0
   \<and> parse_servings_to_int U PNone = Inr 0"
proof -
  have a: "parse_time_to_minutes U (PInt (m * 2 ^ k)) = Inr (m * 2 ^ k)
      \<and> parse_servings_to_int U (PInt (m * 2 ^ k)) = Inr (m * 2 ^ k)"
    if "\<bar>m\<bar> < 2 ^ 53" and "\<bar>m\<bar> * 2 ^ k < 2 ^ 1024"
    using py_float_of_int_repr [OF that]
    by (simp add: num_minutes_def round_half_even_of_int del: of_int_mult of_int_power)
  have b: "parse_time_to_minutes U (PInt n) = Inl OverflowError
      \<and> parse_servings_to_int U (PInt n) = Inl OverflowError"
    if "2 ^ 1024 \<le> \<bar>n\<bar>"
    using py_float_of_int_overflow [OF that] by (simp add: num_minutes_def)
  have c: "parse_time_to_minutes U (PStr []) = Inr 0"
    by (simp add: time_str_minutes_def py_strip_def py_lower_def)
  from a b c show ?thesis
    by (simp add: num_minutes_def)
qed

theorem numeric_inputs_witness:
  "\<bar>- 5 :: int\<bar> < 2 ^ 53 \<and> \<bar>- 5 :: int\<bar> * 2 ^ 60 < 2 ^ 1024
   \<and> parse_time_to_minutes ucd0 (PInt (- 5 * 2 ^ 60)) = Inr (- 5 * 2 ^ 60)
   \<and> parse_servings_to_int ucd0 (PInt (- 5 * 2 ^ 60)) = Inr (- 5 * 2 ^ 60)
   \<and> (2::int) ^ 1024 \<le> \<bar>2 ^ 1024\<bar>
   \<and> parse_time_to_minutes ucd0 (PInt (2 ^ 1024)) = Inl OverflowError
   \<and> parse_servings_to_int ucd0 (PInt (2 ^ 1024)) = Inl OverflowError
   \<and> parse_time_to_minutes ucd0 (PFloat (Finite (7 / 2))) = Inr 4"
proof -
  have a: "\<bar>- 5 :: int\<bar> < 2 ^ 53 \<and> \<bar>- 5 :: int\<bar> * 2 ^ 60 < 2 ^ 1024"
    by simp
  have b: "(2::int) ^ 1024 \<le> \<bar>2 ^ 1024\<bar>"
    by simp
  from numeric_inputs [of "- 5" 60 ucd0 "2 ^ 1024" "7 / 2"] a b show ?thesis
    by (simp add: round_half_even_numeral_half)
qed

section \<open>The colon grammar\<close>

text \<open>How a pattern is shown to match: one way of matching is enough for \<^verbatim>\<open>fullmatch\<close>.\<close>

lemma rx_Seq_iff:
  "y \<in> set (rx U (Seq a b) p cp) \<longleftrightarrow> (\<exists>x \<in> set (rx U a p cp). y \<in> set (rx U b (fst x) (snd x)))"
  by (auto simp: case_prod_beta)

lemma rx_SeqI:
  "(p', cp') \<in> set (rx U a p cp) \<Longrightarrow> y \<in> set (rx U b p' cp') \<Longrightarrow> y \<in> set (rx U (Seq a b) p cp)"
  unfolding rx_Seq_iff by force

lemma rx_OptI1: "y \<in> set (rx U a p cp) \<Longrightarrow> y \<in> set (rx U (Opt a) p cp)"
  by simp

lemma rx_OptI2: "(p, cp) \<in> set (rx U (Opt a) p cp)"
  by simp

lemma rx_LitI: "((Some c, xs), cp) \<in> set (rx U (Lit c) (prev, c # xs) cp)"
  by simp

lemma rx_Rep_iff:
  "y \<in> set (rx U (Rep cl lo hi) p cp) \<longleftrightarrow>
     (\<exists>j. lo \<le> j
          \<and> j \<le> (case hi of None \<Rightarrow> length (takeWhile (in_class U cl) (snd p))
                   | Some h \<Rightarrow> min h (length (takeWhile (in_class U cl) (snd p))))
          \<and> y = (adv j p, cp))"
  by (auto simp: Let_def)

lemma takeWhile_run:
  "list_all P xs \<Longrightarrow> (ys = [] \<or> \<not> P (hd ys)) \<Longrightarrow> takeWhile P (xs @ ys) = xs"
  by (induction xs) (auto simp: takeWhile_eq_Nil_iff neq_Nil_conv)

lemma adv_append:
  "xs \<noteq> [] \<Longrightarrow> adv (length xs) (prev, xs @ ys) = (Some (last xs), ys)"
  by (simp add: adv_def nth_append last_conv_nth)

lemma rx_Rep_run:
  assumes "list_all (in_class U cl) xs" and "ys = [] \<or> \<not> in_class U cl (hd ys)"
    and "lo \<le> length xs" and "xs \<noteq> []"
    and "case hi of None \<Rightarrow> True | Some h \<Rightarrow> length xs \<le> h"
  shows "((Some (last xs), ys), cp) \<in> set (rx U (Rep cl lo hi) (prev, xs @ ys) cp)"
proof -
  have "takeWhile (in_class U cl) (xs @ ys) = xs"
    using assms(1,2) by (rule takeWhile_run)
  then show ?thesis
    using assms(3-5) adv_append [of xs prev ys]
    by (auto simp: rx_Rep_iff split: option.splits intro!: exI [of _ "length xs"])
qed

lemma ascii_digit_in_class: "ascii_digit c \<Longrightarrow> in_class U Digit c"
  by (simp add: ascii_digit_classes)

lemma colon_not_digit: "\<not> is_decimal U 58" "\<not> is_digit U 58" "\<not> ascii_digit 58"
  by (simp_all add: is_decimal_def decimal_value_def is_digit_def ascii_digit_def)

lemma digits_in_class: "list_all ascii_digit ds \<Longrightarrow> list_all (in_class U Digit) ds"
  by (auto simp: list_all_iff ascii_digit_classes)

lemma colon_re_two:
  assumes "hs \<noteq> []" "list_all ascii_digit hs" "ms \<noteq> []" "length ms \<le> 2" "list_all ascii_digit ms"
  shows "((Some (last ms), []), []) \<in> set (rx U colon_re (None, hs @ 58 # ms) [])"
proof -
  have 1: "((Some (last hs), 58 # ms), []) \<in> set (rx U (Rep Digit 1 None) (None, hs @ 58 # ms) [])"
    using assms by (intro rx_Rep_run) (simp_all add: digits_in_class colon_not_digit Suc_leI)
  have 3: "((Some (last ms), []), []) \<in> set (rx U (Rep Digit 1 (Some 2)) (Some 58, ms @ []) [])"
    using assms by (intro rx_Rep_run) (simp_all add: digits_in_class Suc_leI)
  then have 3: "((Some (last ms), []), []) \<in> set (rx U (Rep Digit 1 (Some 2)) (Some 58, ms) [])"
    by (simp only: append_Nil2)
  show ?thesis
    unfolding colon_re_def
    by (rule rx_SeqI [OF 1 rx_SeqI [OF rx_LitI rx_SeqI [OF 3 rx_OptI2]]])
qed

lemma colon_re_three:
  assumes "hs \<noteq> []" "list_all ascii_digit hs" "ms \<noteq> []" "length ms \<le> 2" "list_all ascii_digit ms"
    and "ss \<noteq> []" "length ss \<le> 2" "list_all ascii_digit ss"
  shows "((Some (last ss), []), []) \<in> set (rx U colon_re (None, hs @ 58 # ms @ 58 # ss) [])"
proof -
  have 1: "((Some (last hs), 58 # ms @ 58 # ss), [])
      \<in> set (rx U (Rep Digit 1 None) (None, hs @ 58 # ms @ 58 # ss) [])"
    using assms by (intro rx_Rep_run) (simp_all add: digits_in_class colon_not_digit Suc_leI)
  have 3: "((Some (last ms), 58 # ss), [])
      \<in> set (rx U (Rep Digit 1 (Some 2)) (Some 58, ms @ 58 # ss) [])"
    using assms by (intro rx_Rep_run) (simp_all add: digits_in_class colon_not_digit Suc_leI)
  have 5: "((Some (last ss), []), []) \<in> set (rx U (Rep Digit 1 (Some 2)) (Some 58, ss @ []) [])"
    using assms by (intro rx_Rep_run) (simp_all add: digits_in_class Suc_leI)
  then have 5: "((Some (last ss), []), []) \<in> set (rx U (Rep Digit 1 (Some 2)) (Some 58, ss) [])"
    by (simp only: append_Nil2)
  show ?thesis
    unfolding colon_re_def
    by (rule rx_SeqI [OF 1 rx_SeqI [OF rx_LitI rx_SeqI [OF 3 rx_OptI1 [OF rx_SeqI [OF rx_LitI 5]]]]])
qed

lemma re_fullmatch_I:
  "((q, []), cp) \<in> set (rx U r (None, s) []) \<Longrightarrow> re_fullmatch U r s \<noteq> None"
  by (auto simp: re_fullmatch_def find_None_iff)

lemma py_split_none: "sep \<notin> set xs \<Longrightarrow> py_split sep xs = [xs]"
  by (induction xs) simp_all

lemma py_split_append: "sep \<notin> set xs \<Longrightarrow> py_split sep (xs @ sep # ys) = xs # py_split sep ys"
  by (induction xs) simp_all

lemma py_lower_fixed:
  "list_all (\<lambda>c. c < 128 \<and> ascii_lower c = c) s \<Longrightarrow> py_lower U s = s"
  by (simp add: py_lower_def list_all_iff map_idI)

lemma digits_lower_fixed:
  "list_all ascii_digit ds \<Longrightarrow> list_all (\<lambda>c. c < 128 \<and> ascii_lower c = c) ds"
  by (auto simp: list_all_iff ascii_digit_classes)

lemma colon_not_in_digits: "list_all ascii_digit ds \<Longrightarrow> 58 \<notin> set ds"
  by (auto simp: list_all_iff colon_not_digit)

lemma colon_re_some:
  assumes hs: "hs \<noteq> []" "list_all ascii_digit hs"
    and ms: "ms \<noteq> []" "length ms \<le> 2" "list_all ascii_digit ms"
    and ss: "length ss \<le> 2" "list_all ascii_digit ss"
  shows "re_fullmatch U colon_re (hs @ 58 # ms @ (if ss = [] then [] else 58 # ss)) \<noteq> None"
proof (cases "ss = []")
  case True
  then show ?thesis
    using colon_re_two [OF hs ms, of U] by (simp add: re_fullmatch_I)
next
  case False
  then show ?thesis
    using colon_re_three [OF hs ms False ss, of U] by (simp add: re_fullmatch_I)
qed

lemma time_str_colon:
  assumes hs: "hs \<noteq> []" "list_all ascii_digit hs"
    and ms: "ms \<noteq> []" "length ms \<le> 2" "list_all ascii_digit ms"
    and ss: "length ss \<le> 2" "list_all ascii_digit ss"
    and t: "py_strip U t = hs @ 58 # ms @ (if ss = [] then [] else 58 # ss)"
    and lh: "length hs \<le> max_str_digits"
  shows "time_str_minutes U t
           = clock_total (int (ascii_number hs)) (int (ascii_number ms)) (int (ascii_number ss))"
proof -
  define s where "s = hs @ 58 # ms @ (if ss = [] then [] else 58 # ss)"
  have lm: "length ms \<le> max_str_digits" "length ss \<le> max_str_digits"
    using ms(2) ss(1) by (simp_all add: max_str_digits_def)
  have c58: "(58::nat) < 128 \<and> ascii_lower 58 = 58"
    by (simp add: ascii_lower_def)
  have low: "py_lower U s = s"
    using hs ms ss c58
    by (intro py_lower_fixed) (simp add: s_def digits_lower_fixed)
  have ne: "s \<noteq> []"
    using hs by (simp add: s_def)
  have nd: "\<not> py_isdigit U s"
    by (auto simp: py_isdigit_def s_def list_all_iff colon_not_digit)
  have fm: "re_fullmatch U colon_re s \<noteq> None"
  proof (cases "ss = []")
    case True
    then show ?thesis
      using colon_re_two [OF hs ms, of U] by (simp add: s_def re_fullmatch_I)
  next
    case False
    then show ?thesis
      using colon_re_three [OF hs ms False ss, of U] by (simp add: s_def re_fullmatch_I)
  qed
  have cm: "colon_minutes U s
      = clock_total (int (ascii_number hs)) (int (ascii_number ms)) (int (ascii_number ss))"
  proof (cases "ss = []")
    case True
    then have "py_split 58 s = [hs, ms]"
      using hs ms by (simp add: s_def py_split_append py_split_none colon_not_in_digits)
    then show ?thesis
      using hs ms True lh lm by (simp add: colon_minutes_def py_int_digits ascii_number_def)
  next
    case False
    then have "py_split 58 s = [hs, ms, ss]"
      using hs ms ss by (simp add: s_def py_split_append py_split_none colon_not_in_digits)
    then show ?thesis
      using hs ms ss False lh lm by (simp add: colon_minutes_def py_int_digits)
  qed
  show ?thesis
    using t low ne nd fm cm
    by (simp add: time_str_minutes_def s_def [symmetric])
qed

subsection \<open>The error of a rounding\<close>

lemma round_half_even_error: "\<bar>of_int (round_half_even x) - x\<bar> \<le> 1 / 2"
proof -
  have "of_int \<lfloor>x\<rfloor> \<le> x" "x < of_int \<lfloor>x\<rfloor> + 1"
    by linarith+
  then show ?thesis
    by (auto simp: round_half_even_def Let_def abs_le_iff)
qed

lemma round_half_even_near:
  assumes "\<bar>q - of_int n\<bar> < 1 / 2"
  shows "round_half_even q = n"
proof -
  have a: "of_int n - 1 / 2 < q" "q < of_int n + 1 / 2"
    using assms by linarith+
  show ?thesis
  proof (cases "of_int n \<le> q")
    case True
    with a have "\<lfloor>q\<rfloor> = n"
      by (intro floor_unique) auto
    with a show ?thesis
      by (simp add: round_half_even_def Let_def)
  next
    case False
    with a have f: "\<lfloor>q\<rfloor> = n - 1"
      by (intro floor_unique) auto
    with a show ?thesis
      by (simp add: round_half_even_def Let_def)
  qed
qed

lemma ilog2_less:
  assumes "0 < a" and "a < pow2 k"
  shows "ilog2 a < k"
proof -
  from ilog2_bounds [OF assms(1)] assms(2) have "pow2 (ilog2 a) < pow2 k"
    by simp
  then show ?thesis
    by (metis not_le pow2_mono leD)
qed

lemma rd_error:
  assumes q: "0 < q" "q < pow2 k" and k: "- 1021 \<le> k" "k \<le> 1023"
  shows "\<exists>r. rd q = Some r \<and> \<bar>r - q\<bar> \<le> pow2 (k - 54)"
proof -
  define e where "e = max (ilog2 q) (- 1022) - 52"
  define m where "m = round_half_even (q / pow2 e)"
  have ek: "e \<le> k - 53"
    using ilog2_less [OF q] k by (simp add: e_def)
  have "\<bar>of_int m - q / pow2 e\<bar> \<le> 1 / 2"
    unfolding m_def by (rule round_half_even_error)
  then have "\<bar>of_int m - q / pow2 e\<bar> * pow2 e \<le> 1 / 2 * pow2 e"
    using pow2_pos [of e] by (intro mult_right_mono) simp_all
  moreover have "\<bar>of_int m - q / pow2 e\<bar> * pow2 e = \<bar>of_int m * pow2 e - q\<bar>"
  proof -
    have "\<bar>of_int m - q / pow2 e\<bar> * pow2 e = \<bar>(of_int m - q / pow2 e) * pow2 e\<bar>"
      using pow2_pos [of e] by (simp add: abs_mult)
    also have "(of_int m - q / pow2 e) * pow2 e = of_int m * pow2 e - q"
      using pow2_pos [of e] by (simp add: field_simps)
    finally show ?thesis .
  qed
  moreover have "1 / 2 * pow2 e = pow2 (e - 1)"
    using pow2_Suc [of "e - 1"] by simp
  ultimately have err: "\<bar>of_int m * pow2 e - q\<bar> \<le> pow2 (e - 1)"
    by simp
  have "pow2 (e - 1) \<le> pow2 (k - 54)"
    using ek by (intro pow2_mono) simp
  with err have err': "\<bar>of_int m * pow2 e - q\<bar> \<le> pow2 (k - 54)"
    by simp
  have "of_int m * pow2 e \<le> q + pow2 (k - 54)"
    using err' by (simp add: abs_le_iff)
  also have "\<dots> < pow2 k + pow2 k"
    using q pow2_strict_mono [of "k - 54" k] by simp
  also have "\<dots> = pow2 (k + 1)"
    by (simp add: pow2_Suc)
  also have "\<dots> \<le> pow2 1024"
    using k by (intro pow2_mono) simp
  finally have nov: "\<not> pow2 1024 \<le> of_int m * pow2 e" by simp
  have "rd q = Some (of_int m * pow2 e)"
    using q(1) nov by (simp add: rd_def Let_def e_def [symmetric] m_def [symmetric])
  with err' show ?thesis by simp
qed

text \<open>
  The arithmetic of the colon branch, \<^verbatim>\<open>hours * 60 + minutes + seconds / 60.0\<close> rounded,
  is the exact value rounded, ties to even: the two roundings to binary64 move the sum by
  less than the distance of \<open>k/60\<close> from a half.
\<close>

lemma clock_total_exact:
  assumes N: "0 \<le> H * 60 + M" "H * 60 + M \<le> 2 ^ 32" and S: "0 \<le> S" "S \<le> 99"
  shows "clock_total H M S = Inr (round_half_even (of_int (H * 60 + M) + of_int S / 60))"
proof -
  define N where "N = H * 60 + M"
  define x :: rat where "x = of_int N + of_int S / 60"
  have fS: "py_float_of_int S = Inr (Finite (of_int S))"
    using S by (intro py_float_of_int_exact) simp
  have fN: "py_float_of_int (H * 60 + M) = Inr (Finite (of_int N))"
    using N by (simp add: N_def py_float_of_int_exact)
  have ct: "clock_total H M S = py_round (fadd (Finite (of_int N)) (float_of_rat (of_int S / 60)))"
    by (simp add: clock_total_def fS fN)
  have N0: "0 \<le> N" "N \<le> 2 ^ 32"
    using N by (simp_all add: N_def)
  show ?thesis
  proof (cases "30 dvd S")
    case True
    then obtain j where j: "S = 30 * j" by (elim dvdE)
    with S have jb: "0 \<le> j" "j \<le> 3" by simp_all
    have sq: "(of_int S :: rat) / 60 = of_int j / 2"
      by (simp add: j)
    have 1: "float_of_rat (of_int j / 2) = Finite (of_int j / 2)"
      using jb by (intro float_of_rat_half) simp
    have 2: "of_int N + of_int j / 2 = (of_int (2 * N + j) :: rat) / 2"
      by simp
    have 3: "float_of_rat (of_int (2 * N + j) / 2) = Finite (of_int (2 * N + j) / 2)"
      using jb N0 by (intro float_of_rat_half) simp
    have "fadd (Finite (of_int N)) (float_of_rat (of_int S / 60))
            = float_of_rat (of_int N + of_int j / 2)"
      by (simp only: sq 1 fadd.simps)
    also have "\<dots> = Finite (of_int N + of_int j / 2)"
      by (simp only: 2 3)
    also have "of_int N + of_int j / 2 = x"
      by (simp only: x_def sq)
    finally have "fadd (Finite (of_int N)) (float_of_rat (of_int S / 60)) = Finite x" .
    then have "clock_total H M S = py_round (Finite x)"
      by (simp only: ct)
    then show ?thesis
      by (simp only: py_round.simps x_def N_def)
  next
    case False
    define a where "a = S div 60"
    define b where "b = S mod 60"
    have Sab: "S = 60 * a + b" and b: "0 \<le> b" "b < 60" and a: "0 \<le> a" "a \<le> 1"
      using S by (simp_all add: a_def b_def)
    have b30: "b \<noteq> 30" "b \<noteq> 0"
      using False Sab by auto
    define q :: rat where "q = of_int S / 60"
    have Spos: "0 < S"
      using False S by (cases "S = 0") simp_all
    have q: "0 < q" "q < pow2 1"
      using Spos S by (simp_all add: q_def pow2_def)
    from rd_error [OF q] obtain d where d: "rd q = Some d" "\<bar>d - q\<bar> \<le> pow2 (- 53)"
      by auto
    have ql: "1 / 60 \<le> q"
      using Spos by (simp add: q_def)
    have p53: "pow2 (- 53) < 1 / 120" and p21: "pow2 (- 21) < 1 / 120"
      by (simp_all add: pow2_def power_int_minus field_simps)
    have dpos: "0 < d"
      using d(2) ql p53 by (simp add: abs_le_iff)
    have Nd: "0 < of_int N + d" "of_int N + d < pow2 33"
    proof -
      show "0 < of_int N + d"
        using N0 dpos by (simp add: add_nonneg_pos)
      have "d \<le> q + pow2 (- 53)"
        using d(2) by (simp add: abs_le_iff)
      then have "d < 3"
        using q(2) p53 by (simp add: pow2_def)
      moreover have "(of_int N :: rat) \<le> of_int (2 ^ 32)"
        using N0 by (simp only: of_int_le_iff)
      ultimately show "of_int N + d < pow2 33"
        by (simp add: pow2_def)
    qed
    from rd_error [OF Nd] obtain r where r: "rd (of_int N + d) = Some r"
      "\<bar>r - (of_int N + d)\<bar> \<le> pow2 (- 21)"
      by auto
    have fa: "fadd (Finite (of_int N)) (float_of_rat (of_int S / 60)) = Finite r"
      using d(1) r(1) by (simp add: float_of_rat_def q_def [symmetric])
    have xq: "x = of_int N + q"
      by (simp add: x_def q_def)
    have rx: "\<bar>r - x\<bar> < 1 / 60"
    proof -
      have "\<bar>r - x\<bar> \<le> \<bar>r - (of_int N + d)\<bar> + \<bar>d - q\<bar>"
        unfolding xq by linarith
      with r(2) d(2) p53 p21 show ?thesis
        by linarith
    qed
    define n where "n = (if b < 30 then N + a else N + a + 1)"
    have xn: "\<bar>x - of_int n\<bar> \<le> 29 / 60"
    proof -
      have xe: "x = of_int N + of_int a + of_int b / 60"
        by (simp add: x_def Sab)
      show ?thesis
      proof (cases "b < 30")
        case True
        then have "b \<le> 29" by simp
        then have "(of_int b :: rat) \<le> of_int 29"
          by (simp only: of_int_le_iff)
        moreover have "(0 :: rat) \<le> of_int b"
          using b by simp
        ultimately show ?thesis
          using True by (simp add: n_def xe)
      next
        case False
        with b30 have "31 \<le> b" by simp
        then have "(of_int 31 :: rat) \<le> of_int b"
          by (simp only: of_int_le_iff)
        moreover have "b \<le> 60" using b by simp
        then have "(of_int b :: rat) \<le> of_int 60"
          by (simp only: of_int_le_iff)
        ultimately show ?thesis
          using False by (simp add: n_def xe abs_le_iff)
      qed
    qed
    have "\<bar>r - of_int n\<bar> < 1 / 2"
      using rx xn by linarith
    then have rn: "round_half_even r = n"
      by (rule round_half_even_near)
    have "\<bar>x - of_int n\<bar> < 1 / 2"
      using xn by linarith
    then have xr: "round_half_even x = n"
      by (rule round_half_even_near)
    have "clock_total H M S = py_round (Finite r)"
      by (simp only: ct fa)
    also have "\<dots> = Inr (round_half_even x)"
      by (simp only: py_round.simps rn xr)
    finally show ?thesis
      by (simp only: x_def N_def)
  qed
qed

text \<open>And what a match of the colon pattern says about the text.\<close>

lemma snd_adv: "snd (adv j p) = drop j (snd p)"
  by (simp add: adv_def)

lemma take_run: "j \<le> length (takeWhile P xs) \<Longrightarrow> list_all P (take j xs)"
proof (induction xs arbitrary: j)
  case Nil
  then show ?case by simp
next
  case (Cons x xs)
  then show ?case by (cases j) (auto split: if_splits)
qed

lemma rx_Lit_iff:
  "y \<in> set (rx U (Lit c) p cp) \<longleftrightarrow> (\<exists>xs. snd p = c # xs \<and> y = ((Some c, xs), cp))"
  by (auto split: list.splits)

lemma rx_Rep_digits:
  assumes "y \<in> set (rx U (Rep Digit lo hi) p cp)"
  obtains j where "lo \<le> j" and "case hi of None \<Rightarrow> True | Some h \<Rightarrow> j \<le> h"
    and "list_all (is_decimal U) (take j (snd p))" and "j \<le> length (snd p)"
    and "snd (fst y) = drop j (snd p)" and "snd y = cp"
proof -
  from assms obtain j where j: "lo \<le> j"
    "j \<le> (case hi of None \<Rightarrow> length (takeWhile (in_class U Digit) (snd p))
            | Some h \<Rightarrow> min h (length (takeWhile (in_class U Digit) (snd p))))"
    "y = (adv j p, cp)"
    unfolding rx_Rep_iff by blast
  have run: "j \<le> length (takeWhile (in_class U Digit) (snd p))"
    using j(2) by (cases hi) simp_all
  have "list_all (in_class U Digit) (take j (snd p))"
    using run by (rule take_run)
  then have d: "list_all (is_decimal U) (take j (snd p))"
    by (simp add: list_all_iff)
  have l: "j \<le> length (snd p)"
    using run length_takeWhile_le [of "in_class U Digit" "snd p"] by linarith
  have h: "case hi of None \<Rightarrow> True | Some h \<Rightarrow> j \<le> h"
    using j(2) by (cases hi) simp_all
  show thesis
    using that [OF j(1) h d l] j(3) by (simp add: snd_adv)
qed

lemma colon_re_shape:
  assumes "((q, []), cp) \<in> set (rx U colon_re (None, s) [])"
  shows "\<exists>hs ms ss. s = hs @ 58 # ms @ (if ss = [] then [] else 58 # ss)
           \<and> hs \<noteq> [] \<and> list_all (is_decimal U) hs
           \<and> ms \<noteq> [] \<and> length ms \<le> 2 \<and> list_all (is_decimal U) ms
           \<and> length ss \<le> 2 \<and> list_all (is_decimal U) ss"
proof -
  from assms obtain x1 x2 x3 where
    x1: "x1 \<in> set (rx U (Rep Digit 1 None) (None, s) [])" and
    x2: "x2 \<in> set (rx U (Lit 58) (fst x1) (snd x1))" and
    x3: "x3 \<in> set (rx U (Rep Digit 1 (Some 2)) (fst x2) (snd x2))" and
    x4: "((q, []), cp) \<in> set (rx U (Opt (Seq (Lit 58) (Rep Digit 1 (Some 2)))) (fst x3) (snd x3))"
    unfolding colon_re_def rx_Seq_iff by blast
  from x1 obtain j1 where j1: "1 \<le> j1" "list_all (is_decimal U) (take j1 s)" "j1 \<le> length s"
    "snd (fst x1) = drop j1 s"
    by (rule rx_Rep_digits) simp
  from x2 obtain r1 where r1: "drop j1 s = 58 # r1" "fst x2 = (Some 58, r1)"
    unfolding rx_Lit_iff j1(4) [symmetric] by auto
  from x3 obtain j2 where j2: "1 \<le> j2" "j2 \<le> 2" "list_all (is_decimal U) (take j2 r1)"
    "j2 \<le> length r1" "snd (fst x3) = drop j2 r1"
    by (rule rx_Rep_digits) (simp add: r1(2))
  define hs where "hs = take j1 s"
  define ms where "ms = take j2 r1"
  have s: "s = hs @ 58 # ms @ drop j2 r1"
    using r1(1) append_take_drop_id [of j1 s] append_take_drop_id [of j2 r1]
    by (simp add: hs_def ms_def)
  have hs: "hs \<noteq> []" "list_all (is_decimal U) hs"
    using j1 by (auto simp: hs_def)
  have ms: "ms \<noteq> []" "length ms \<le> 2" "list_all (is_decimal U) ms"
    using j2 by (auto simp: ms_def)
  from x4 consider "drop j2 r1 = []"
    | "((q, []), cp) \<in> set (rx U (Seq (Lit 58) (Rep Digit 1 (Some 2))) (fst x3) (snd x3))"
    using j2(5) by (cases x3) auto
  then show ?thesis
  proof cases
    case 1
    with s hs ms show ?thesis
      by (intro exI [of _ hs] exI [of _ ms] exI [of _ "[]"]) simp
  next
    case 2
    then obtain x5 where
      x5: "x5 \<in> set (rx U (Lit 58) (fst x3) (snd x3))" and
      x6: "((q, []), cp) \<in> set (rx U (Rep Digit 1 (Some 2)) (fst x5) (snd x5))"
      unfolding rx_Seq_iff by blast
    from x5 obtain r3 where r3: "drop j2 r1 = 58 # r3" "fst x5 = (Some 58, r3)"
      unfolding rx_Lit_iff j2(5) [symmetric] by auto
    from x6 obtain j3 where j3: "1 \<le> j3" "j3 \<le> 2" "list_all (is_decimal U) (take j3 r3)"
      "j3 \<le> length r3" "[] = drop j3 r3"
      by (rule rx_Rep_digits) (simp add: r3(2))
    have "r3 = take j3 r3"
      using j3(5) append_take_drop_id [of j3 r3] by simp
    then have ss: "r3 \<noteq> []" "length r3 \<le> 2" "list_all (is_decimal U) r3"
      using j3 by auto
    with s hs ms r3(1) show ?thesis
      by (intro exI [of _ hs] exI [of _ ms] exI [of _ r3]) simp
  qed
qed

lemma ascii_number_bound: "list_all ascii_digit ds \<Longrightarrow> ascii_number ds < 10 ^ length ds"
proof (induction ds rule: rev_induct)
  case Nil
  show ?case by (simp add: ascii_number_def)
next
  case (snoc c ds)
  then have "ascii_number ds < 10 ^ length ds"
    by simp
  moreover from snoc.prems have "c - 48 \<le> 9"
    by (auto simp: ascii_digit_def)
  ultimately show ?case
    by (simp add: ascii_number_snoc)
qed

lemma re_fullmatch_D:
  "re_fullmatch U r s \<noteq> None \<Longrightarrow> \<exists>q cp. ((q, []), cp) \<in> set (rx U r (None, s) [])"
  by (auto simp: re_fullmatch_def find_None_iff)

lemma decimal_not_colon: "list_all (is_decimal U) ds \<Longrightarrow> 58 \<notin> set ds"
  by (auto simp: list_all_iff colon_not_digit)

lemma split_first_unique:
  "x \<notin> set xs \<Longrightarrow> x \<notin> set xs' \<Longrightarrow> xs @ x # ys = xs' @ x # ys' \<Longrightarrow> xs = xs' \<and> ys = ys'"
proof (induction xs arbitrary: xs')
  case Nil
  then show ?case by (cases xs') auto
next
  case (Cons a xs)
  then show ?case by (cases xs') auto
qed

lemma colon_re_none:
  assumes hs: "list_all ascii_digit hs" and ms: "list_all ascii_digit ms"
    and ss: "list_all ascii_digit ss" and long: "2 < length ms \<or> 2 < length ss"
  shows "re_fullmatch U colon_re (hs @ 58 # ms @ (if ss = [] then [] else 58 # ss)) = None"
proof (rule ccontr)
  assume "re_fullmatch U colon_re (hs @ 58 # ms @ (if ss = [] then [] else 58 # ss)) \<noteq> None"
  then obtain q cp where
    "((q, []), cp) \<in> set (rx U colon_re (None, hs @ 58 # ms @ (if ss = [] then [] else 58 # ss)) [])"
    using re_fullmatch_D by blast
  from colon_re_shape [OF this] obtain hs' ms' ss' where
    e: "hs @ 58 # ms @ (if ss = [] then [] else 58 # ss)
          = hs' @ 58 # ms' @ (if ss' = [] then [] else 58 # ss')"
    and d: "list_all (is_decimal U) hs'" "list_all (is_decimal U) ms'" "list_all (is_decimal U) ss'"
    and l: "length ms' \<le> 2" "length ss' \<le> 2"
    by blast
  have n: "58 \<notin> set hs" "58 \<notin> set ms" "58 \<notin> set ss" "58 \<notin> set hs'" "58 \<notin> set ms'" "58 \<notin> set ss'"
    using hs ms ss d by (simp_all add: colon_not_in_digits decimal_not_colon)
  have "hs = hs' \<and> ms @ (if ss = [] then [] else 58 # ss) = ms' @ (if ss' = [] then [] else 58 # ss')"
    by (rule split_first_unique [OF n(1) n(4) e])
  then have m: "ms @ (if ss = [] then [] else 58 # ss) = ms' @ (if ss' = [] then [] else 58 # ss')" ..
  show False
  proof (cases "ss = []")
    case True
    show ?thesis
    proof (cases "ss' = []")
      case True
      with m \<open>ss = []\<close> l long show ?thesis by simp
    next
      case False
      with m \<open>ss = []\<close> have "ms = ms' @ 58 # ss'"
        by simp
      then have "58 \<in> set ms"
        by simp
      with n show ?thesis by simp
    qed
  next
    case False
    show ?thesis
    proof (cases "ss' = []")
      case True
      with m False have "ms' = ms @ 58 # ss"
        by simp
      then have "58 \<in> set ms'"
        by simp
      with n show ?thesis by simp
    next
      case f: False
      with m False have "ms @ 58 # ss = ms' @ 58 # ss'"
        by simp
      with n have "ms = ms' \<and> ss = ss'"
        by (intro split_first_unique) simp_all
      with l long show ?thesis by simp
    qed
  qed
qed

text \<open>
  Claim C5, as stated, keeps every field to one or two digits. The pattern is
  \<^verbatim>\<open>\d+:\d{1,2}(?::\d{1,2})?\<close>: the hours field takes any number of digits, and a text with
  three digits of hours is read by this grammar.
\<close>

theorem colon_counterexample:
  "re_fullmatch ucd0 colon_re (asc ''100:30'') \<noteq> None
   \<and> parse_time_to_minutes ucd0 (PStr (asc ''100:30'')) = Inr 6030"
  by (simp add: norm_defs str_defs rx_defs fl_simps)

lemma time_str_colon_long:
  assumes hs: "hs \<noteq> []" "list_all ascii_digit hs"
    and ms: "ms \<noteq> []" "length ms \<le> 2" "list_all ascii_digit ms"
    and ss: "length ss \<le> 2" "list_all ascii_digit ss"
    and t: "py_strip U t = hs @ 58 # ms @ (if ss = [] then [] else 58 # ss)"
    and lh: "max_str_digits < length hs"
  shows "time_str_minutes U t = Inl ValueError"
proof -
  define s where "s = hs @ 58 # ms @ (if ss = [] then [] else 58 # ss)"
  have c58: "(58::nat) < 128 \<and> ascii_lower 58 = 58"
    by (simp add: ascii_lower_def)
  have low: "py_lower U s = s"
    using hs ms ss c58
    by (intro py_lower_fixed) (simp add: s_def digits_lower_fixed)
  have ne: "s \<noteq> []"
    using hs by (simp add: s_def)
  have nd: "\<not> py_isdigit U s"
    by (auto simp: py_isdigit_def s_def list_all_iff colon_not_digit)
  have fm: "re_fullmatch U colon_re s \<noteq> None"
    unfolding s_def using hs ms ss by (rule colon_re_some)
  have "py_split 58 s = hs # py_split 58 (ms @ (if ss = [] then [] else 58 # ss))"
    using hs by (simp add: s_def py_split_append colon_not_in_digits)
  then have cm: "colon_minutes U s = Inl ValueError"
    by (simp add: colon_minutes_def py_int_long [OF lh])
  show ?thesis
    using t low ne nd fm cm
    by (simp add: time_str_minutes_def s_def [symmetric])
qed

lemma clock_total_overflow:
  assumes "0 \<le> S" and "S \<le> 99" and "2 ^ 1024 \<le> H * 60 + M"
  shows "clock_total H M S = Inl OverflowError"
proof -
  have "py_float_of_int S = Inr (Finite (of_int S))"
    using assms(1,2) by (intro py_float_of_int_exact) simp
  moreover have "py_float_of_int (H * 60 + M) = Inl OverflowError"
    using assms(3) by (intro py_float_of_int_overflow) simp
  ultimately show ?thesis
    by (simp add: clock_total_def)
qed

lemma py_float_of_int_big: "py_float_of_int 9007199254740993 = Inr (Finite 9007199254740992)"
  using rd_big by (simp add: py_float_of_int_def)

lemma colon_float_example:
  "parse_time_to_minutes ucd0 (PStr (asc ''150119987579016:33'')) = Inr 9007199254740992"
  by (simp add: norm_defs str_defs rx_defs fl_simps py_float_of_int_big)

text \<open>
  Claim C5, amended. Let the trimmed text be a non-empty run of digits, a colon, a
  non-empty run of digits and, possibly, a colon and a third run of digits. If the second
  and third run have at most two digits, the colon pattern matches the text, whatever the
  number of digits of the hours. Then, when the hours have at most 4300 digits, the result
  is the value of \<^verbatim>\<open>hours * 60 + minutes + (seconds / 60.0)\<close> as the source computes it, an
  integer made a float plus a quotient of floats, rounded to the nearest integer, ties to
  even; when \<open>hours \<times> 60 + minutes\<close> is at most \<open>2\<^sup>3\<^sup>2\<close>, this is the exact value of hours
  times 60 plus minutes plus seconds over 60, rounded in the same way; when it is \<open>2\<^sup>1\<^sup>0\<^sup>2\<^sup>4\<close>
  or more, the integer is too large for a float and \<^verbatim>\<open>OverflowError\<close> is raised; and when
  the hours have more than 4300 digits, \<^verbatim>\<open>int\<close> raises \<^verbatim>\<open>ValueError\<close>. If the second or the
  third run has more than two digits, the colon pattern does not match the text.
\<close>

theorem colon_clock:
  assumes "hs \<noteq> []" and "list_all ascii_digit hs" and "ms \<noteq> []" and "list_all ascii_digit ms"
    and "list_all ascii_digit ss"
    and "py_strip U t = hs @ 58 # ms @ (if ss = [] then [] else 58 # ss)"
  shows "(length ms \<le> 2 \<and> length ss \<le> 2 \<longrightarrow>
            re_fullmatch U colon_re (py_strip U t) \<noteq> None)
         \<and> (length ms \<le> 2 \<and> length ss \<le> 2 \<and> length hs \<le> max_str_digits \<longrightarrow>
            parse_time_to_minutes U (PStr t)
              = clock_total (int (ascii_number hs)) (int (ascii_number ms)) (int (ascii_number ss)))
         \<and> (length ms \<le> 2 \<and> length ss \<le> 2 \<and> length hs \<le> max_str_digits
            \<and> int (ascii_number hs) * 60 + int (ascii_number ms) \<le> 2 ^ 32 \<longrightarrow>
            parse_time_to_minutes U (PStr t)
              = Inr (round_half_even (of_int (int (ascii_number hs) * 60 + int (ascii_number ms))
                                        + of_int (int (ascii_number ss)) / 60)))
         \<and> (length ms \<le> 2 \<and> length ss \<le> 2 \<and> length hs \<le> max_str_digits
            \<and> 2 ^ 1024 \<le> int (ascii_number hs) * 60 + int (ascii_number ms) \<longrightarrow>
            parse_time_to_minutes U (PStr t) = Inl OverflowError)
         \<and> (length ms \<le> 2 \<and> length ss \<le> 2 \<and> max_str_digits < length hs \<longrightarrow>
            parse_time_to_minutes U (PStr t) = Inl ValueError)
         \<and> (2 < length ms \<or> 2 < length ss \<longrightarrow>
              re_fullmatch U colon_re (py_strip U t) = None)"
proof (intro conjI impI)
  assume b: "length ms \<le> 2 \<and> length ss \<le> 2"
  then show "re_fullmatch U colon_re (py_strip U t) \<noteq> None"
    using assms by (simp only: assms(6)) (rule colon_re_some, simp_all)
next
  assume b: "length ms \<le> 2 \<and> length ss \<le> 2 \<and> length hs \<le> max_str_digits"
  have "time_str_minutes U t
      = clock_total (int (ascii_number hs)) (int (ascii_number ms)) (int (ascii_number ss))"
    using assms b by (intro time_str_colon) simp_all
  then show "parse_time_to_minutes U (PStr t)
      = clock_total (int (ascii_number hs)) (int (ascii_number ms)) (int (ascii_number ss))"
    by simp
next
  assume b: "length ms \<le> 2 \<and> length ss \<le> 2 \<and> length hs \<le> max_str_digits
      \<and> int (ascii_number hs) * 60 + int (ascii_number ms) \<le> 2 ^ 32"
  have "ascii_number ss < 10 ^ length ss"
    using assms(5) by (rule ascii_number_bound)
  also have "\<dots> \<le> 10 ^ 2"
    using b by (intro power_increasing) simp_all
  finally have s: "int (ascii_number ss) \<le> 99"
    by simp
  have "time_str_minutes U t
      = clock_total (int (ascii_number hs)) (int (ascii_number ms)) (int (ascii_number ss))"
    using assms b by (intro time_str_colon) simp_all
  also have "\<dots> = Inr (round_half_even (of_int (int (ascii_number hs) * 60 + int (ascii_number ms))
                                      + of_int (int (ascii_number ss)) / 60))"
    using b s by (intro clock_total_exact) simp_all
  finally show "parse_time_to_minutes U (PStr t)
      = Inr (round_half_even (of_int (int (ascii_number hs) * 60 + int (ascii_number ms))
                                      + of_int (int (ascii_number ss)) / 60))"
    by simp
next
  assume b: "length ms \<le> 2 \<and> length ss \<le> 2 \<and> length hs \<le> max_str_digits
      \<and> 2 ^ 1024 \<le> int (ascii_number hs) * 60 + int (ascii_number ms)"
  have "ascii_number ss < 10 ^ length ss"
    using assms(5) by (rule ascii_number_bound)
  also have "\<dots> \<le> 10 ^ 2"
    using b by (intro power_increasing) simp_all
  finally have s: "int (ascii_number ss) \<le> 99"
    by simp
  have "time_str_minutes U t
      = clock_total (int (ascii_number hs)) (int (ascii_number ms)) (int (ascii_number ss))"
    using assms b by (intro time_str_colon) simp_all
  also have "\<dots> = Inl OverflowError"
    using b s by (intro clock_total_overflow) simp_all
  finally show "parse_time_to_minutes U (PStr t) = Inl OverflowError"
    by simp
next
  assume b: "length ms \<le> 2 \<and> length ss \<le> 2 \<and> max_str_digits < length hs"
  have "time_str_minutes U t = Inl ValueError"
    using assms b by (intro time_str_colon_long [of hs ms ss]) simp_all
  then show "parse_time_to_minutes U (PStr t) = Inl ValueError"
    by simp
next
  assume "2 < length ms \<or> 2 < length ss"
  then show "re_fullmatch U colon_re (py_strip U t) = None"
    using assms by (simp only: assms(6)) (rule colon_re_none)
qed

theorem colon_clock_witness:
  "asc ''1'' \<noteq> [] \<and> list_all ascii_digit (asc ''1'')
   \<and> asc ''30'' \<noteq> [] \<and> list_all ascii_digit (asc ''30'') \<and> list_all ascii_digit (asc ''00'')
   \<and> py_strip ucd0 (asc ''1:30:00'')
       = asc ''1'' @ 58 # asc ''30'' @ (if asc ''00'' = [] then [] else 58 # asc ''00'')
   \<and> length (asc ''30'') \<le> 2 \<and> length (asc ''00'') \<le> 2 \<and> length (asc ''1'') \<le> max_str_digits
   \<and> int (ascii_number (asc ''1'')) * 60 + int (ascii_number (asc ''30'')) \<le> 2 ^ 32
   \<and> re_fullmatch ucd0 colon_re (py_strip ucd0 (asc ''1:30:00'')) \<noteq> None
   \<and> parse_time_to_minutes ucd0 (PStr (asc ''1:30:00'')) = Inr 90
   \<and> parse_time_to_minutes ucd0 (PStr (asc ''1:30'')) = Inr 90
   \<and> parse_time_to_minutes ucd0 (PStr (asc ''0:45'')) = Inr 45
   \<and> parse_time_to_minutes ucd0 (PStr (asc ''150119987579016:33'')) = Inr (2 ^ 53)
   \<and> re_fullmatch ucd0 colon_re (asc ''1:300'') = None"
proof -
  have h: "asc ''1'' \<noteq> []" "list_all ascii_digit (asc ''1'')"
    "asc ''30'' \<noteq> []" "list_all ascii_digit (asc ''30'')" "list_all ascii_digit (asc ''00'')"
    "py_strip ucd0 (asc ''1:30:00'')
       = asc ''1'' @ 58 # asc ''30'' @ (if asc ''00'' = [] then [] else 58 # asc ''00'')"
    by (simp_all add: str_defs ascii_digit_def)
  have b: "length (asc ''30'') \<le> 2" "length (asc ''00'') \<le> 2"
    "length (asc ''1'') \<le> max_str_digits"
    "int (ascii_number (asc ''1'')) * 60 + int (ascii_number (asc ''30'')) \<le> 2 ^ 32"
    by (simp_all add: str_defs ascii_number_def)
  have v: "round_half_even (of_int (int (ascii_number (asc ''1'')) * 60 + int (ascii_number (asc ''30'')))
              + of_int (int (ascii_number (asc ''00''))) / 60) = 90"
    by (simp add: str_defs ascii_number_def fl_simps)
  have e: "parse_time_to_minutes ucd0 (PStr (asc ''1:30'')) = Inr 90"
    "parse_time_to_minutes ucd0 (PStr (asc ''0:45'')) = Inr 45"
    "re_fullmatch ucd0 colon_re (asc ''1:300'') = None"
    by (simp_all add: norm_defs str_defs rx_defs fl_simps)
  have f: "parse_time_to_minutes ucd0 (PStr (asc ''150119987579016:33'')) = Inr (2 ^ 53)"
    using colon_float_example by simp
  note c = colon_clock [OF h]
  from c b have m: "re_fullmatch ucd0 colon_re (py_strip ucd0 (asc ''1:30:00'')) \<noteq> None"
    by blast
  from c b have "parse_time_to_minutes ucd0 (PStr (asc ''1:30:00''))
      = Inr (round_half_even (of_int (int (ascii_number (asc ''1'')) * 60 + int (ascii_number (asc ''30'')))
              + of_int (int (ascii_number (asc ''00''))) / 60))"
    by blast
  then have "parse_time_to_minutes ucd0 (PStr (asc ''1:30:00'')) = Inr 90"
    by (simp only: v)
  with h b e f m show ?thesis
    by simp
qed

end
